theory Spec2Isabelle
  imports Main
begin

section \<open>Data model of minimal\_goban.js\<close>

text \<open>
  The values the entry points can be handed. Only strings are ever inspected; the
  other constructors stand for the inputs that fail the \<open>typeof s !== "string"\<close> test.
  A string is a list of character codes, here of 8 bits: a string with a code above 255
  among its first two is out of bounds like every other string off the grid.
\<close>

datatype jsval = JUndefined | JNull | JBool bool | JNum int | JStr string

text \<open>\<open>const EMPTY = 0; const BLACK = 1; const WHITE = 2;\<close>\<close>

datatype stone = EMPTY | BLACK | WHITE

text \<open>
  \<open>board\<close> is a 2d array, \<open>board[x][y]\<close>; \<open>player\<close> holds \<open>BLACK\<close> or \<open>WHITE\<close>;
  \<open>ko\<close> holds \<open>null\<close> or a point string.
\<close>

type_synonym board = "stone list list"

record game =
  board :: board
  player :: stone
  ko :: jsval

definition wf_board :: "board \<Rightarrow> bool" where
  "wf_board b = (length b = 19 \<and> list_all (\<lambda>col. length col = 19) b)"

definition initial_board :: board where
  "initial_board = replicate 19 (replicate 19 EMPTY)"

definition initial_game :: game where
  "initial_game = \<lparr>board = initial_board, player = BLACK, ko = JNull\<rparr>"

section \<open>Coordinates\<close>

text \<open>
  \<open>xy_to_s\<close> is called with coordinates from 0 to 18 only, where the character codes
  are 97 to 115.
\<close>

definition xy_to_s :: "int \<Rightarrow> int \<Rightarrow> jsval" where
  "xy_to_s x y = JStr [char_of (x + 97), char_of (y + 97)]"

text \<open>
  \<open>s_to_xy\<close> reads the first two character codes. Where the source would read a missing
  character (NaN) or call \<open>charCodeAt\<close> on a non-string the result is \<open>None\<close>; every
  caller has checked \<open>in_bounds\<close> before it takes the coordinates apart.
\<close>

fun s_to_xy :: "jsval \<Rightarrow> (int \<times> int) option" where
  "s_to_xy (JStr (a # b # _)) = Some (of_char a - 97, of_char b - 97)"
| "s_to_xy _ = None"

definition in_bounds :: "jsval \<Rightarrow> bool" where
  "in_bounds s =
     (case s of
        JStr cs \<Rightarrow>
          if length cs \<noteq> 2 then False
          else (case s_to_xy s of
                  Some (x, y) \<Rightarrow> x \<ge> 0 \<and> x < 19 \<and> y \<ge> 0 \<and> y < 19
                | None \<Rightarrow> False)
      | _ \<Rightarrow> False)"

definition state_at :: "board \<Rightarrow> jsval \<Rightarrow> stone" where
  "state_at b s =
     (if \<not> in_bounds s then EMPTY
      else let (x, y) = the (s_to_xy s) in b ! nat x ! nat y)"

definition neighbours :: "jsval \<Rightarrow> jsval list" where
  "neighbours s =
     (if \<not> in_bounds s then []
      else let (x, y) = the (s_to_xy s) in
        (if x < 19 - 1 then [xy_to_s (x + 1) y] else []) @
        (if x > 0 then [xy_to_s (x - 1) y] else []) @
        (if y < 19 - 1 then [xy_to_s x (y + 1)] else []) @
        (if y > 0 then [xy_to_s x (y - 1)] else []))"

section \<open>Liberty search\<close>

text \<open>
  \<open>touched\<close> is an object used as a set of keys; \<open>Object.keys\<close> lists them in the order
  they were first written. \<open>touch s touched\<close> is \<open>touched[s] = true\<close>. The keys looked up
  are the point strings \<open>neighbours\<close> returns, so a key is kept as the value it was
  written with.
\<close>

definition touch :: "jsval \<Rightarrow> jsval list \<Rightarrow> jsval list" where
  "touch s touched = (if s \<in> set touched then touched else touched @ [s])"

text \<open>
  \<open>has_liberties(s, touched)\<close> returns its answer together with the \<open>touched\<close> object as
  the call leaves it, since the recursive calls of one loop share it. A call without the
  second argument starts from the empty object, \<open>[]\<close>. \<open>has_liberties_loop\<close> is the
  \<open>for (let neighbour of neighbours(s))\<close> loop of the body.
\<close>

function has_liberties :: "board \<Rightarrow> jsval \<Rightarrow> jsval list \<Rightarrow> bool \<times> jsval list"
  and has_liberties_loop :: "board \<Rightarrow> stone \<Rightarrow> jsval list \<Rightarrow> jsval list \<Rightarrow> bool \<times> jsval list"
where
  "has_liberties b s touched =
     has_liberties_loop b (state_at b s) (neighbours s) (touch s touched)"
| "has_liberties_loop b colour [] touched = (False, touched)"
| "has_liberties_loop b colour (neighbour # rest) touched =
     (if neighbour \<in> set touched then has_liberties_loop b colour rest touched
      else if state_at b neighbour = EMPTY then (True, touched)
      else if state_at b neighbour = colour then
        (case has_liberties b neighbour touched of
           (r, touched') \<Rightarrow>
             if r then (True, touched') else has_liberties_loop b colour rest touched')
      else has_liberties_loop b colour rest touched)"
  by pat_completeness auto


text \<open>
  The other source file of the repository keeps the search in \<open>has_liberties_recurse\<close>,
  whose body is the body above line for line, and guards its entry point:
  \<open>if (state_at(s) === EMPTY) return false; // I guess? It means we got a bad call.\<close>
\<close>

definition has_liberties_recurse :: "board \<Rightarrow> jsval \<Rightarrow> jsval list \<Rightarrow> bool \<times> jsval list" where
  "has_liberties_recurse b s touched = has_liberties b s touched"

definition has_liberties_guarded :: "board \<Rightarrow> jsval \<Rightarrow> bool" where
  "has_liberties_guarded b s =
     (if state_at b s = EMPTY then False
      else fst (has_liberties_recurse b s []))"

section \<open>Group collection and destruction\<close>

function group_at_recurse :: "board \<Rightarrow> jsval \<Rightarrow> jsval list \<Rightarrow> jsval list"
  and group_at_loop :: "board \<Rightarrow> stone \<Rightarrow> jsval list \<Rightarrow> jsval list \<Rightarrow> jsval list"
where
  "group_at_recurse b s touched =
     group_at_loop b (state_at b s) (neighbours s) (touch s touched)"
| "group_at_loop b colour [] touched = touched"
| "group_at_loop b colour (neighbour # rest) touched =
     (if neighbour \<in> set touched then group_at_loop b colour rest touched
      else if state_at b neighbour = colour then
        group_at_loop b colour rest (group_at_recurse b neighbour touched)
      else group_at_loop b colour rest touched)"
  by pat_completeness auto

definition group_at :: "board \<Rightarrow> jsval \<Rightarrow> jsval list" where
  "group_at b s =
     (if state_at b s = EMPTY then []
      else group_at_recurse b s [])"

text \<open>\<open>let [x, y] = s_to_xy(s); board[x][y] = colour;\<close>\<close>

definition set_cell :: "board \<Rightarrow> jsval \<Rightarrow> stone \<Rightarrow> board" where
  "set_cell b s colour =
     (let (x, y) = the (s_to_xy s) in b[nat x := (b ! nat x)[nat y := colour]])"

definition destroy_group :: "board \<Rightarrow> jsval \<Rightarrow> board \<times> nat" where
  "destroy_group b s =
     (let group = group_at b s
      in (fold (\<lambda>q b'. set_cell b' q EMPTY) group b, length group))"

section \<open>Ko helpers\<close>

fun empty_neighbour_loop :: "board \<Rightarrow> jsval list \<Rightarrow> jsval" where
  "empty_neighbour_loop b [] = JNull"
| "empty_neighbour_loop b (neighbour # rest) =
     (if state_at b neighbour = EMPTY then neighbour else empty_neighbour_loop b rest)"

definition empty_neighbour :: "board \<Rightarrow> jsval \<Rightarrow> jsval" where
  "empty_neighbour b s = empty_neighbour_loop b (neighbours s)"

fun one_liberty_singleton_loop :: "board \<Rightarrow> stone \<Rightarrow> jsval list \<Rightarrow> nat \<Rightarrow> bool" where
  "one_liberty_singleton_loop b colour [] liberties = (liberties = 1)"
| "one_liberty_singleton_loop b colour (neighbour # rest) liberties =
     (let neighbour_colour = state_at b neighbour in
        if neighbour_colour = colour then False
        else one_liberty_singleton_loop b colour rest
               (if neighbour_colour = EMPTY then liberties + 1 else liberties))"

definition one_liberty_singleton :: "board \<Rightarrow> jsval \<Rightarrow> bool" where
  "one_liberty_singleton b s =
     (let colour = state_at b s in
        if colour = EMPTY then False
        else one_liberty_singleton_loop b colour (neighbours s) 0)"

section \<open>Legality\<close>

text \<open>The two loops of \<open>legal_move\<close> over \<open>all_neighbours\<close>.\<close>

fun legal_move_empty_loop :: "board \<Rightarrow> jsval list \<Rightarrow> bool" where
  "legal_move_empty_loop b [] = False"
| "legal_move_empty_loop b (neighbour # rest) =
     (if state_at b neighbour = EMPTY then True else legal_move_empty_loop b rest)"

fun legal_move_group_loop :: "board \<Rightarrow> stone \<Rightarrow> jsval \<Rightarrow> jsval list \<Rightarrow> bool" where
  "legal_move_group_loop b pl s [] = False"
| "legal_move_group_loop b pl s (neighbour # rest) =
     (if state_at b neighbour = pl then
        (if fst (has_liberties b neighbour (touch s [])) then True
         else legal_move_group_loop b pl s rest)
      else if state_at b neighbour \<noteq> EMPTY then
        (if \<not> fst (has_liberties b neighbour (touch s [])) then True
         else legal_move_group_loop b pl s rest)
      else legal_move_group_loop b pl s rest)"

text \<open>
  The entry points run on the program state (the three globals) and hand it back, so
  that what a call leaves behind is part of its result.
\<close>

definition legal_move :: "jsval \<Rightarrow> game \<Rightarrow> bool \<times> game" where
  "legal_move s st =
     (if \<not> in_bounds s \<or> state_at (board st) s \<noteq> EMPTY \<or> ko st = s then (False, st)
      else let all_neighbours = neighbours s in
        if legal_move_empty_loop (board st) all_neighbours then (True, st)
        else (legal_move_group_loop (board st) (player st) s all_neighbours, st))"

section \<open>Playing a move\<close>

text \<open>The capture loop of \<open>play\<close>; the pair is the board and \<open>caps\<close>.\<close>

fun capture_loop :: "stone \<Rightarrow> jsval list \<Rightarrow> board \<times> nat \<Rightarrow> board \<times> nat" where
  "capture_loop colour [] (b, caps) = (b, caps)"
| "capture_loop colour (neighbour # rest) (b, caps) =
     (let neighbour_colour = state_at b neighbour in
        if neighbour_colour \<noteq> EMPTY \<and> neighbour_colour \<noteq> colour then
          (if \<not> fst (has_liberties b neighbour []) then
             (case destroy_group b neighbour of
                (b', n) \<Rightarrow> capture_loop colour rest (b', caps + n))
           else capture_loop colour rest (b, caps))
        else capture_loop colour rest (b, caps))"

definition play :: "jsval \<Rightarrow> game \<Rightarrow> game" where
  "play s st =
     (let colour = player st;
          st1 = st\<lparr>ko := JNull, player := (if player st = BLACK then WHITE else BLACK)\<rparr>
      in if \<not> in_bounds s then st1
         else
           let b1 = set_cell (board st1) s colour;
               (b2, caps) = capture_loop colour (neighbours s) (b1, 0);
               b3 = (if \<not> fst (has_liberties b2 s []) then fst (destroy_group b2 s) else b2);
               st2 = st1\<lparr>board := b3\<rparr>
           in if caps = 1 then
                (if one_liberty_singleton b3 s then st2\<lparr>ko := empty_neighbour b3 s\<rparr> else st2)
              else st2)"

section \<open>Notions the properties are stated with\<close>

text \<open>
  Two points are adjacent when both lie on the 19 x 19 grid and differ by one step along
  one axis.
\<close>

definition adjacent :: "jsval \<Rightarrow> jsval \<Rightarrow> bool" where
  "adjacent p q =
     (\<exists>x y x' y'. 0 \<le> x \<and> x < 19 \<and> 0 \<le> y \<and> y < 19 \<and> 0 \<le> x' \<and> x' < 19 \<and> 0 \<le> y' \<and> y' < 19 \<and>
        p = xy_to_s x y \<and> q = xy_to_s x' y' \<and> \<bar>x - x'\<bar> + \<bar>y - y'\<bar> = 1)"

text \<open>One step inside a group: to an adjacent point that holds the same stone.\<close>

definition group_step :: "board \<Rightarrow> (jsval \<times> jsval) set" where
  "group_step b = {(p, q). adjacent p q \<and> state_at b q = state_at b p}"

text \<open>The group of a stone: everything reachable from it by such steps.\<close>

definition group_of :: "board \<Rightarrow> jsval \<Rightarrow> jsval set" where
  "group_of b p = {q. (p, q) \<in> (group_step b)\<^sup>*}"

text \<open>The liberties of a set of points: the empty points adjacent to one of them.\<close>

definition liberties :: "board \<Rightarrow> jsval set \<Rightarrow> jsval set" where
  "liberties b G = {m. \<exists>q \<in> G. adjacent q m \<and> state_at b m = EMPTY}"

text \<open>
  The opponent stones a move takes off the board: the points that hold a stone of the
  other colour on \<open>b0\<close> and are empty on \<open>b1\<close>.
\<close>

definition captured :: "stone \<Rightarrow> board \<Rightarrow> board \<Rightarrow> jsval set" where
  "captured colour b0 b1 =
     {q. state_at b0 q \<noteq> EMPTY \<and> state_at b0 q \<noteq> colour \<and> state_at b1 q = EMPTY}"

text \<open>The states a game can be in: legal moves and passes from the initial state.\<close>

inductive reachable :: "game \<Rightarrow> bool" where
  start: "reachable initial_game"
| move: "reachable st \<Longrightarrow> fst (legal_move s st) \<Longrightarrow> reachable (play s st)"
| pass: "reachable st \<Longrightarrow> \<not> in_bounds s \<Longrightarrow> reachable (play s st)"

section \<open>The legality check with its failing reads made explicit\<close>

text \<open>
  The same code once more, from \<open>in_bounds\<close> to \<open>legal_move\<close>, with every operation that
  can go wrong written as a result: \<open>charCodeAt\<close> of a value that is not a string and a
  read in a column the board does not have raise a \<open>TypeError\<close>; a character read past
  the end of a string gives \<open>NaN\<close>, and a read past the end of a column gives
  \<open>undefined\<close>. The run stops at the first of them.
\<close>

datatype error = TypeError | NaN | Undefined

definition charCodeAt :: "jsval \<Rightarrow> nat \<Rightarrow> error + int" where
  "charCodeAt s i =
     (case s of
        JStr cs \<Rightarrow> if i < length cs then Inr (of_char (cs ! i)) else Inl NaN
      | _ \<Rightarrow> Inl TypeError)"

definition s_to_xy_checked :: "jsval \<Rightarrow> error + (int \<times> int)" where
  "s_to_xy_checked s =
     (case charCodeAt s 0 of
        Inl e \<Rightarrow> Inl e
      | Inr cx \<Rightarrow>
          (case charCodeAt s 1 of
             Inl e \<Rightarrow> Inl e
           | Inr cy \<Rightarrow> Inr (cx - 97, cy - 97)))"

definition in_bounds_checked :: "jsval \<Rightarrow> error + bool" where
  "in_bounds_checked s =
     (case s of
        JStr cs \<Rightarrow>
          if length cs \<noteq> 2 then Inr False
          else (case s_to_xy_checked s of
                  Inl e \<Rightarrow> Inl e
                | Inr (x, y) \<Rightarrow> Inr (x \<ge> 0 \<and> x < 19 \<and> y \<ge> 0 \<and> y < 19))
      | _ \<Rightarrow> Inr False)"

definition board_read :: "board \<Rightarrow> int \<Rightarrow> int \<Rightarrow> error + stone" where
  "board_read b x y =
     (if 0 \<le> x \<and> nat x < length b then
        (if 0 \<le> y \<and> nat y < length (b ! nat x) then Inr (b ! nat x ! nat y)
         else Inl Undefined)
      else Inl TypeError)"

definition state_at_checked :: "board \<Rightarrow> jsval \<Rightarrow> error + stone" where
  "state_at_checked b s =
     (case in_bounds_checked s of
        Inl e \<Rightarrow> Inl e
      | Inr inside \<Rightarrow>
          if \<not> inside then Inr EMPTY
          else (case s_to_xy_checked s of
                  Inl e \<Rightarrow> Inl e
                | Inr (x, y) \<Rightarrow> board_read b x y))"

definition neighbours_checked :: "jsval \<Rightarrow> error + jsval list" where
  "neighbours_checked s =
     (case in_bounds_checked s of
        Inl e \<Rightarrow> Inl e
      | Inr inside \<Rightarrow>
          if \<not> inside then Inr []
          else (case s_to_xy_checked s of
                  Inl e \<Rightarrow> Inl e
                | Inr (x, y) \<Rightarrow>
                    Inr ((if x < 19 - 1 then [xy_to_s (x + 1) y] else []) @
                         (if x > 0 then [xy_to_s (x - 1) y] else []) @
                         (if y < 19 - 1 then [xy_to_s x (y + 1)] else []) @
                         (if y > 0 then [xy_to_s x (y - 1)] else []))))"

function has_liberties_checked :: "board \<Rightarrow> jsval \<Rightarrow> jsval list \<Rightarrow> error + (bool \<times> jsval list)"
  and has_liberties_loop_checked ::
    "board \<Rightarrow> stone \<Rightarrow> jsval list \<Rightarrow> jsval list \<Rightarrow> error + (bool \<times> jsval list)"
where
  "has_liberties_checked b s touched =
     (case state_at_checked b s of
        Inl e \<Rightarrow> Inl e
      | Inr colour \<Rightarrow>
          (case neighbours_checked s of
             Inl e \<Rightarrow> Inl e
           | Inr ns \<Rightarrow> has_liberties_loop_checked b colour ns (touch s touched)))"
| "has_liberties_loop_checked b colour [] touched = Inr (False, touched)"
| "has_liberties_loop_checked b colour (neighbour # rest) touched =
     (if neighbour \<in> set touched then has_liberties_loop_checked b colour rest touched
      else
        (case state_at_checked b neighbour of
           Inl e \<Rightarrow> Inl e
         | Inr neighbour_colour \<Rightarrow>
             if neighbour_colour = EMPTY then Inr (True, touched)
             else if neighbour_colour = colour then
               (case has_liberties_checked b neighbour touched of
                  Inl e \<Rightarrow> Inl e
                | Inr (r, touched') \<Rightarrow>
                    if r then Inr (True, touched')
                    else has_liberties_loop_checked b colour rest touched')
             else has_liberties_loop_checked b colour rest touched))"
  by pat_completeness auto

fun legal_move_empty_loop_checked :: "board \<Rightarrow> jsval list \<Rightarrow> error + bool" where
  "legal_move_empty_loop_checked b [] = Inr False"
| "legal_move_empty_loop_checked b (neighbour # rest) =
     (case state_at_checked b neighbour of
        Inl e \<Rightarrow> Inl e
      | Inr c \<Rightarrow> if c = EMPTY then Inr True else legal_move_empty_loop_checked b rest)"

fun legal_move_group_loop_checked :: "board \<Rightarrow> stone \<Rightarrow> jsval \<Rightarrow> jsval list \<Rightarrow> error + bool" where
  "legal_move_group_loop_checked b pl s [] = Inr False"
| "legal_move_group_loop_checked b pl s (neighbour # rest) =
     (case state_at_checked b neighbour of
        Inl e \<Rightarrow> Inl e
      | Inr c \<Rightarrow>
          if c = pl then
            (case has_liberties_checked b neighbour (touch s []) of
               Inl e \<Rightarrow> Inl e
             | Inr (r, _) \<Rightarrow> if r then Inr True else legal_move_group_loop_checked b pl s rest)
          else if c \<noteq> EMPTY then
            (case has_liberties_checked b neighbour (touch s []) of
               Inl e \<Rightarrow> Inl e
             | Inr (r, _) \<Rightarrow> if \<not> r then Inr True else legal_move_group_loop_checked b pl s rest)
          else legal_move_group_loop_checked b pl s rest)"

definition legal_move_checked :: "jsval \<Rightarrow> game \<Rightarrow> error + (bool \<times> game)" where
  "legal_move_checked s st =
     (case in_bounds_checked s of
        Inl e \<Rightarrow> Inl e
      | Inr inside \<Rightarrow>
          if \<not> inside then Inr (False, st)
          else
            (case state_at_checked (board st) s of
               Inl e \<Rightarrow> Inl e
             | Inr c \<Rightarrow>
                 if c \<noteq> EMPTY \<or> ko st = s then Inr (False, st)
                 else
                   (case neighbours_checked s of
                      Inl e \<Rightarrow> Inl e
                    | Inr all_neighbours \<Rightarrow>
                        (case legal_move_empty_loop_checked (board st) all_neighbours of
                           Inl e \<Rightarrow> Inl e
                         | Inr found \<Rightarrow>
                             if found then Inr (True, st)
                             else
                               (case legal_move_group_loop_checked (board st) (player st) s
                                       all_neighbours of
                                  Inl e \<Rightarrow> Inl e
                                | Inr r \<Rightarrow> Inr (r, st))))))"

section \<open>Positions used as examples\<close>

text \<open>A sequence of moves is playable when each is a legal move or a pass.\<close>

fun all_legal :: "jsval list \<Rightarrow> game \<Rightarrow> bool" where
  "all_legal [] st = True"
| "all_legal (m # ms) st =
     ((if in_bounds m then fst (legal_move m st) else True) \<and> all_legal ms (play m st))"

text \<open>
  Black \<open>dd\<close>, White \<open>ba\<close>, Black \<open>de\<close>, White \<open>ab\<close>: White holds both neighbours of the
  corner \<open>aa\<close> and it is Black's turn.
\<close>

definition corner_moves :: "jsval list" where
  "corner_moves = [JStr ''dd'', JStr ''ba'', JStr ''de'', JStr ''ab'']"

definition corner_position :: game where
  "corner_position = fold play corner_moves initial_game"

text \<open>
  Black \<open>ba\<close>, White \<open>ca\<close>, Black \<open>ab\<close>, White \<open>bb\<close>, Black \<open>dd\<close>: the black stone on \<open>ba\<close>
  has its last liberty on \<open>aa\<close> and it is White's turn.
\<close>

definition ko_moves :: "jsval list" where
  "ko_moves = [JStr ''ba'', JStr ''ca'', JStr ''ab'', JStr ''bb'', JStr ''dd'']"

definition ko_position :: game where
  "ko_position = fold play ko_moves initial_game"

section \<open>Termination of the two searches\<close>

lemma finite_in_bounds: "finite {p. in_bounds p}"
proof -
  have "{p. in_bounds p} \<subseteq> JStr ` {cs. set cs \<subseteq> UNIV \<and> length cs = 2}"
  proof
    fix p assume "p \<in> {p. in_bounds p}"
    then show "p \<in> JStr ` {cs. set cs \<subseteq> UNIV \<and> length cs = 2}"
      by (cases p) (auto simp: in_bounds_def split: if_splits)
  qed
  moreover have "finite (JStr ` {cs :: string. set cs \<subseteq> UNIV \<and> length cs = 2})"
    using finite_lists_length_eq [of "UNIV :: char set" 2] by simp
  ultimately show ?thesis by (rule finite_subset)
qed

lemma set_touch: "set (touch s t) = insert s (set t)"
  by (auto simp: touch_def)

lemma has_liberties_touched_pmono:
  "has_liberties_has_liberties_loop_dom (Inl (b, s, t)) \<Longrightarrow> set t \<subseteq> set (snd (has_liberties b s t))"
  "has_liberties_has_liberties_loop_dom (Inr (b, c, ns, t)) \<Longrightarrow> set t \<subseteq> set (snd (has_liberties_loop b c ns t))"
proof (induct rule: has_liberties_has_liberties_loop.pinduct)
  case (1 b s touched)
  then show ?case by (auto simp: has_liberties.psimps set_touch)
next
  case (2 b colour touched)
  then show ?case by (simp add: has_liberties_loop.psimps)
next
  case (3 b colour neighbour rest touched)
  show ?case
  proof (cases "neighbour \<in> set touched")
    case True
    with 3 show ?thesis by (simp add: has_liberties_loop.psimps)
  next
    case nt: False
    show ?thesis
    proof (cases "state_at b neighbour = EMPTY")
      case True
      with nt 3 show ?thesis by (simp add: has_liberties_loop.psimps)
    next
      case ne: False
      show ?thesis
      proof (cases "state_at b neighbour = colour")
        case False
        with nt ne 3 show ?thesis by (simp add: has_liberties_loop.psimps)
      next
        case True
        obtain r t' where rt: "has_liberties b neighbour touched = (r, t')"
          by (cases "has_liberties b neighbour touched")
        from 3(3) [OF nt ne True] rt have s1: "set touched \<subseteq> set t'" by simp
        show ?thesis
        proof (cases r)
          case True
          with nt ne \<open>state_at b neighbour = colour\<close> rt s1 3(1) show ?thesis
            by (simp add: has_liberties_loop.psimps)
        next
          case False
          from 3(4) [OF nt ne \<open>state_at b neighbour = colour\<close> rt [symmetric] False]
          have "set t' \<subseteq> set (snd (has_liberties_loop b colour rest t'))" .
          with s1 nt ne \<open>state_at b neighbour = colour\<close> rt False 3(1) show ?thesis
            by (simp add: has_liberties_loop.psimps)
        qed
      qed
    qed
  qed
qed

lemma state_at_out: "\<not> in_bounds s \<Longrightarrow> state_at b s = EMPTY"
  by (simp add: state_at_def)

lemma card_untouched_less:
  "in_bounds n \<Longrightarrow> n \<notin> set t \<Longrightarrow> card ({p. in_bounds p} - set (touch n t)) < card ({p. in_bounds p} - set t)"
  by (rule psubset_card_mono) (auto simp: finite_in_bounds set_touch)

lemma card_untouched_le:
  "set t \<subseteq> set t' \<Longrightarrow> card ({p. in_bounds p} - set t') \<le> card ({p. in_bounds p} - set t)"
  by (rule card_mono) (auto simp: finite_in_bounds)

termination has_liberties
proof (relation "inv_image (less_than <*lex*> less_than)
    (\<lambda>a. case a of
       Inl (b, s, t) \<Rightarrow> (card ({p. in_bounds p} - set (touch s t)), 2 * length (neighbours s) + 1)
     | Inr (b, c, ns, t) \<Rightarrow> (card ({p. in_bounds p} - set t), 2 * length ns))", goal_cases)
  case 1
  then show ?case by (simp add: wf_lex_prod)
next
  case (2 b s touched)
  then show ?case by simp
next
  case (3 b colour neighbour rest touched)
  then show ?case by simp
next
  case (4 b colour neighbour rest touched)
  then have "in_bounds neighbour" using state_at_out by blast
  with 4 show ?case using card_untouched_less [of neighbour touched] by simp
next
  case (5 b colour neighbour rest touched x y)
  then have "set touched \<subseteq> set y"
    using has_liberties_touched_pmono(1) [of b neighbour touched] by (metis snd_conv)
  then show ?case using card_untouched_le [of touched y] by auto
next
  case (6 b colour neighbour rest touched)
  then show ?case by simp
qed


lemma group_at_touched_pmono:
  "group_at_recurse_group_at_loop_dom (Inl (b, s, t)) \<Longrightarrow> set t \<subseteq> set (group_at_recurse b s t)"
  "group_at_recurse_group_at_loop_dom (Inr (b, c, ns, t)) \<Longrightarrow> set t \<subseteq> set (group_at_loop b c ns t)"
proof (induct rule: group_at_recurse_group_at_loop.pinduct)
  case (1 b s touched)
  then show ?case by (auto simp: group_at_recurse.psimps set_touch)
next
  case (2 b colour touched)
  then show ?case by (simp add: group_at_loop.psimps)
next
  case (3 b colour neighbour rest touched)
  show ?case
  proof (cases "neighbour \<in> set touched")
    case True
    with 3 show ?thesis by (simp add: group_at_loop.psimps)
  next
    case nt: False
    show ?thesis
    proof (cases "state_at b neighbour = colour")
      case False
      with nt 3 show ?thesis by (simp add: group_at_loop.psimps)
    next
      case True
      from 3(3) [OF nt True] have "set touched \<subseteq> set (group_at_recurse b neighbour touched)" .
      moreover from 3(4) [OF nt True]
      have "set (group_at_recurse b neighbour touched)
              \<subseteq> set (group_at_loop b colour rest (group_at_recurse b neighbour touched))" .
      ultimately show ?thesis using nt True 3(1) by (simp add: group_at_loop.psimps)
    qed
  qed
qed

termination group_at_recurse
proof (relation "inv_image (less_than <*lex*> less_than)
    (\<lambda>a. case a of
       Inl (b, s, t) \<Rightarrow> (card ({p. in_bounds p} - set (touch s t)), 2 * length (neighbours s) + 1)
     | Inr (b, c, ns, t) \<Rightarrow> (card ({p. in_bounds p} - set t), 2 * length ns))", goal_cases)
  case 1
  then show ?case by (simp add: wf_lex_prod)
next
  case (2 b s touched)
  then show ?case by simp
next
  case (3 b colour neighbour rest touched)
  then show ?case by simp
next
  case (4 b colour neighbour rest touched)
  show ?case
  proof (cases "in_bounds neighbour")
    case True
    with 4 show ?thesis using card_untouched_less [of neighbour touched] by simp
  next
    case False
    then have "neighbours neighbour = []" by (simp add: neighbours_def)
    moreover have "card ({p. in_bounds p} - set (touch neighbour touched))
                     \<le> card ({p. in_bounds p} - set touched)"
      by (rule card_untouched_le) (auto simp: set_touch)
    ultimately show ?thesis by auto
  qed
next
  case (5 b colour neighbour rest touched)
  then have "set touched \<subseteq> set (group_at_recurse b neighbour touched)"
    using group_at_touched_pmono(1) [of b neighbour touched] by simp
  then show ?case
    using card_untouched_le [of touched "group_at_recurse b neighbour touched"] by auto
next
  case (6 b colour neighbour rest touched)
  then show ?case by simp
qed

text \<open>
  The equations of the two entry functions rewrite a call into its loop; they are used by
  name only.
\<close>

declare has_liberties.simps [simp del] group_at_recurse.simps [simp del]

section \<open>Coordinates and neighbours\<close>

lemma s_to_xy_xy_to_s:
  "0 \<le> x \<Longrightarrow> x < 19 \<Longrightarrow> 0 \<le> y \<Longrightarrow> y < 19 \<Longrightarrow> s_to_xy (xy_to_s x y) = Some (x, y)"
  by (simp add: xy_to_s_def of_char_of)

lemma in_bounds_xy_to_s:
  "0 \<le> x \<Longrightarrow> x < 19 \<Longrightarrow> 0 \<le> y \<Longrightarrow> y < 19 \<Longrightarrow> in_bounds (xy_to_s x y)"
  using s_to_xy_xy_to_s [of x y] by (simp add: in_bounds_def) (simp add: xy_to_s_def)

lemma in_bounds_coords:
  assumes "in_bounds p"
  obtains x y where "0 \<le> x" "x < 19" "0 \<le> y" "y < 19" "p = xy_to_s x y" "s_to_xy p = Some (x, y)"
proof -
  from assms obtain a b where p: "p = JStr [a, b]"
    by (cases p) (auto simp: in_bounds_def length_Suc_conv numeral_2_eq_2 split: if_splits)
  let ?x = "of_char a - 97 :: int" and ?y = "of_char b - 97 :: int"
  from assms p have r: "0 \<le> ?x" "?x < 19" "0 \<le> ?y" "?y < 19"
    by (auto simp: in_bounds_def)
  have "char_of (?x + 97) = a" "char_of (?y + 97) = b" by simp_all
  then have "p = xy_to_s ?x ?y" by (simp add: p xy_to_s_def)
  moreover have "s_to_xy p = Some (?x, ?y)" by (simp add: p)
  ultimately show thesis using r that by blast
qed

lemma xy_to_s_inject:
  assumes "0 \<le> x" "x < 19" "0 \<le> y" "y < 19" "0 \<le> x'" "x' < 19" "0 \<le> y'" "y' < 19"
    and "xy_to_s x y = xy_to_s x' y'"
  shows "x = x' \<and> y = y'"
proof -
  have a: "s_to_xy (xy_to_s x y) = Some (x, y)" using assms(1-4) by (rule s_to_xy_xy_to_s)
  have b: "s_to_xy (xy_to_s x' y') = Some (x', y')" using assms(5-8) by (rule s_to_xy_xy_to_s)
  from assms(9) have "s_to_xy (xy_to_s x y) = s_to_xy (xy_to_s x' y')" by (rule arg_cong)
  then have "Some (x, y) = Some (x', y')" unfolding a b .
  then show ?thesis by simp
qed

lemma neighbours_xy_to_s:
  assumes "0 \<le> x" "x < 19" "0 \<le> y" "y < 19"
  shows "neighbours (xy_to_s x y) =
     (if x < 18 then [xy_to_s (x + 1) y] else []) @
     (if x > 0 then [xy_to_s (x - 1) y] else []) @
     (if y < 18 then [xy_to_s x (y + 1)] else []) @
     (if y > 0 then [xy_to_s x (y - 1)] else [])"
  using assms in_bounds_xy_to_s [OF assms] s_to_xy_xy_to_s [OF assms]
  by (simp add: neighbours_def)

lemma neighbours_out: "\<not> in_bounds p \<Longrightarrow> neighbours p = []"
  by (simp add: neighbours_def)

lemma adjacent_in_bounds: "adjacent p q \<Longrightarrow> in_bounds p \<and> in_bounds q"
  by (auto simp: adjacent_def in_bounds_xy_to_s)

lemma adjacent_sym: "adjacent p q \<Longrightarrow> adjacent q p"
  unfolding adjacent_def by (metis abs_minus_commute)

lemma adjacent_neq: "adjacent p q \<Longrightarrow> p \<noteq> q"
proof
  assume a: "adjacent p q" and e: "p = q"
  from a obtain x y x' y' where r: "0 \<le> x" "x < 19" "0 \<le> y" "y < 19" "0 \<le> x'" "x' < 19" "0 \<le> y'" "y' < 19"
    and pq: "p = xy_to_s x y" "q = xy_to_s x' y'" and d: "\<bar>x - x'\<bar> + \<bar>y - y'\<bar> = 1"
    unfolding adjacent_def by blast
  from e pq have "xy_to_s x y = xy_to_s x' y'" by simp
  from xy_to_s_inject [OF r this] d show False by simp
qed

lemma set_neighbours: "set (neighbours p) = {q. adjacent p q}"
proof (cases "in_bounds p")
  case False
  then show ?thesis using adjacent_in_bounds by (auto simp: neighbours_out)
next
  case True
  then obtain x y where r: "0 \<le> x" "x < 19" "0 \<le> y" "y < 19" and p: "p = xy_to_s x y"
    by (rule in_bounds_coords)
  show ?thesis
  proof (intro set_eqI iffI)
    fix q assume "q \<in> set (neighbours p)"
    then consider "x < 18" "q = xy_to_s (x + 1) y" | "x > 0" "q = xy_to_s (x - 1) y"
      | "y < 18" "q = xy_to_s x (y + 1)" | "y > 0" "q = xy_to_s x (y - 1)"
      unfolding p neighbours_xy_to_s [OF r] by (auto split: if_splits)
    then have "adjacent p q"
    proof cases
      case 1
      with r p show ?thesis unfolding adjacent_def
        by (intro exI [of _ x] exI [of _ y] exI [of _ "x + 1"]) auto
    next
      case 2
      with r p show ?thesis unfolding adjacent_def
        by (intro exI [of _ x] exI [of _ y] exI [of _ "x - 1"]) auto
    next
      case 3
      with r p show ?thesis unfolding adjacent_def
        by (intro exI [of _ x] exI [of _ y] exI [of _ "y + 1"]) auto
    next
      case 4
      with r p show ?thesis unfolding adjacent_def
        by (intro exI [of _ x] exI [of _ y] exI [of _ "y - 1"]) auto
    qed
    then show "q \<in> {q. adjacent p q}" by simp
  next
    fix q assume "q \<in> {q. adjacent p q}"
    then obtain x0 y0 x' y' where r': "0 \<le> x0" "x0 < 19" "0 \<le> y0" "y0 < 19" "0 \<le> x'" "x' < 19" "0 \<le> y'" "y' < 19"
      and pq: "p = xy_to_s x0 y0" "q = xy_to_s x' y'" and d: "\<bar>x0 - x'\<bar> + \<bar>y0 - y'\<bar> = 1"
      unfolding adjacent_def by blast
    from p pq(1) have "xy_to_s x y = xy_to_s x0 y0" by simp
    from xy_to_s_inject [OF r r'(1-4) this] have e: "x0 = x" "y0 = y" by simp_all
    from d e consider "x' = x + 1" "y' = y" | "x' = x - 1" "y' = y" | "x' = x" "y' = y + 1" | "x' = x" "y' = y - 1"
      by (cases "x' = x") (auto simp: abs_if split: if_splits)
    then show "q \<in> set (neighbours p)"
      unfolding p neighbours_xy_to_s [OF r] using r r' pq(2) by cases auto
  qed
qed

lemma distinct_neighbours: "distinct (neighbours p)"
proof (cases "in_bounds p")
  case False
  then show ?thesis by (simp add: neighbours_out)
next
  case True
  then obtain x y where r: "0 \<le> x" "x < 19" "0 \<le> y" "y < 19" and p: "p = xy_to_s x y"
    by (rule in_bounds_coords)
  have eq: "\<And>a b c d. 0 \<le> a \<Longrightarrow> a < 19 \<Longrightarrow> 0 \<le> b \<Longrightarrow> b < 19 \<Longrightarrow> 0 \<le> c \<Longrightarrow> c < 19 \<Longrightarrow> 0 \<le> d \<Longrightarrow> d < 19
      \<Longrightarrow> (xy_to_s a b = xy_to_s c d) = (a = c \<and> b = d)"
    using xy_to_s_inject by blast
  show ?thesis unfolding p neighbours_xy_to_s [OF r] using r by (simp add: eq)
qed

lemma state_at_xy_to_s:
  "0 \<le> x \<Longrightarrow> x < 19 \<Longrightarrow> 0 \<le> y \<Longrightarrow> y < 19 \<Longrightarrow> state_at b (xy_to_s x y) = b ! nat x ! nat y"
  by (simp add: state_at_def in_bounds_xy_to_s s_to_xy_xy_to_s)

section \<open>Queries, passes and the ko point\<close>

lemma empty_neighbour_loop_cases:
  "empty_neighbour_loop b ns = JNull \<or>
   (empty_neighbour_loop b ns \<in> set ns \<and> state_at b (empty_neighbour_loop b ns) = EMPTY)"
  by (induction ns) auto

lemma empty_neighbour_cases:
  "empty_neighbour b s = JNull \<or>
   (adjacent s (empty_neighbour b s) \<and> state_at b (empty_neighbour b s) = EMPTY)"
  using empty_neighbour_loop_cases [of b "neighbours s"] set_neighbours [of s]
  by (auto simp: empty_neighbour_def)

lemma play_ko_cases:
  "ko (play s st) = JNull \<or>
   (in_bounds (ko (play s st)) \<and> state_at (board (play s st)) (ko (play s st)) = EMPTY)"
  using empty_neighbour_cases adjacent_in_bounds
  by (auto simp: play_def Let_def split: prod.splits)

text \<open>
  Claim C9. \<open>state_at\<close> answers on every input: \<open>EMPTY\<close> for an input that is not a point
  of the grid, and for the point with coordinates \<open>(x, y)\<close> the stone stored in
  \<open>board[x][y]\<close>, a read that lies inside the 19 x 19 array.
\<close>

theorem state_at_total:
  "(\<not> in_bounds p \<longrightarrow> state_at b p = EMPTY) \<and>
   (in_bounds p \<longrightarrow>
      (\<exists>x y. 0 \<le> x \<and> x < 19 \<and> 0 \<le> y \<and> y < 19 \<and> p = xy_to_s x y \<and>
             state_at b p = b ! nat x ! nat y \<and>
             (wf_board b \<longrightarrow> nat x < length b \<and> nat y < length (b ! nat x))))"
proof (intro conjI impI)
  assume "\<not> in_bounds p"
  then show "state_at b p = EMPTY" by (rule state_at_out)
next
  assume "in_bounds p"
  then obtain x y where r: "0 \<le> x" "x < 19" "0 \<le> y" "y < 19" and p: "p = xy_to_s x y"
    by (rule in_bounds_coords)
  have "state_at b p = b ! nat x ! nat y" unfolding p using r by (rule state_at_xy_to_s)
  moreover have "wf_board b \<longrightarrow> nat x < length b \<and> nat y < length (b ! nat x)"
    using r by (auto simp: wf_board_def list_all_length)
  ultimately show "\<exists>x y. 0 \<le> x \<and> x < 19 \<and> 0 \<le> y \<and> y < 19 \<and> p = xy_to_s x y \<and>
             state_at b p = b ! nat x ! nat y \<and>
             (wf_board b \<longrightarrow> nat x < length b \<and> nat y < length (b ! nat x))"
    using r p by blast
qed

theorem state_at_total_witness:
  "\<not> in_bounds (JStr ''zz'') \<and> state_at initial_board (JStr ''zz'') = EMPTY \<and>
   in_bounds (JStr ''dd'') \<and> wf_board (set_cell initial_board (JStr ''dd'') BLACK) \<and>
   (\<exists>x y. 0 \<le> x \<and> x < 19 \<and> 0 \<le> y \<and> y < 19 \<and> JStr ''dd'' = xy_to_s x y \<and>
      state_at (set_cell initial_board (JStr ''dd'') BLACK) (JStr ''dd'')
        = set_cell initial_board (JStr ''dd'') BLACK ! nat x ! nat y \<and>
      nat x < length (set_cell initial_board (JStr ''dd'') BLACK) \<and>
      nat y < length (set_cell initial_board (JStr ''dd'') BLACK ! nat x))"
proof -
  have a: "\<not> in_bounds (JStr ''zz'')" by code_simp
  have b: "in_bounds (JStr ''dd'')" by code_simp
  have c: "wf_board (set_cell initial_board (JStr ''dd'') BLACK)" by code_simp
  from a state_at_total [of "JStr ''zz''" initial_board]
  have "state_at initial_board (JStr ''zz'') = EMPTY" by blast
  moreover from b c state_at_total [of "JStr ''dd''" "set_cell initial_board (JStr ''dd'') BLACK"]
  have "\<exists>x y. 0 \<le> x \<and> x < 19 \<and> 0 \<le> y \<and> y < 19 \<and> JStr ''dd'' = xy_to_s x y \<and>
      state_at (set_cell initial_board (JStr ''dd'') BLACK) (JStr ''dd'')
        = set_cell initial_board (JStr ''dd'') BLACK ! nat x ! nat y \<and>
      nat x < length (set_cell initial_board (JStr ''dd'') BLACK) \<and>
      nat y < length (set_cell initial_board (JStr ''dd'') BLACK ! nat x)" by blast
  ultimately show ?thesis using a b c by blast
qed

text \<open>
  Claim C5. \<open>play\<close> on an out-of-bounds input clears \<open>ko\<close>, hands the turn to the other
  colour and leaves the board as it is; two such calls in a row give the turn back to the
  player who had it and still leave the board as it was.
\<close>

theorem play_pass:
  assumes "\<not> in_bounds p" and "\<not> in_bounds q" and "player st = BLACK \<or> player st = WHITE"
  shows "ko (play p st) = JNull \<and>
         player (play p st) = (if player st = BLACK then WHITE else BLACK) \<and>
         board (play p st) = board st \<and>
         player (play q (play p st)) = player st \<and>
         board (play q (play p st)) = board st"
  using assms by (auto simp: play_def Let_def)

theorem play_pass_witness:
  "\<not> in_bounds JNull \<and> \<not> in_bounds (JStr ''tt'') \<and>
   (player (play (JStr ''dd'') initial_game) = BLACK \<or> player (play (JStr ''dd'') initial_game) = WHITE) \<and>
   ko (play JNull (play (JStr ''dd'') initial_game)) = JNull \<and>
   player (play JNull (play (JStr ''dd'') initial_game)) = BLACK \<and>
   board (play JNull (play (JStr ''dd'') initial_game)) = board (play (JStr ''dd'') initial_game) \<and>
   player (play (JStr ''tt'') (play JNull (play (JStr ''dd'') initial_game))) = WHITE \<and>
   board (play (JStr ''tt'') (play JNull (play (JStr ''dd'') initial_game)))
     = board (play (JStr ''dd'') initial_game)"
proof -
  have a: "\<not> in_bounds JNull" by code_simp
  have b: "\<not> in_bounds (JStr ''tt'')" by code_simp
  have c: "player (play (JStr ''dd'') initial_game) = WHITE" by code_simp
  from c have d: "player (play (JStr ''dd'') initial_game) = BLACK \<or> player (play (JStr ''dd'') initial_game) = WHITE"
    by simp
  from play_pass [OF a b d] a b c show ?thesis by simp
qed

text \<open>
  Claim C6. \<open>legal_move\<close> leaves the board, the player to move and the ko point as it
  found them, on every input.
\<close>

theorem legal_move_pure:
  "board (snd (legal_move p st)) = board st \<and>
   player (snd (legal_move p st)) = player st \<and>
   ko (snd (legal_move p st)) = ko st"
  by (simp add: legal_move_def Let_def)

theorem legal_move_pure_witness:
  "fst (legal_move (JStr ''dd'') initial_game) \<and>
   board (snd (legal_move (JStr ''dd'') initial_game)) = initial_board \<and>
   player (snd (legal_move (JStr ''dd'') initial_game)) = BLACK \<and>
   ko (snd (legal_move (JStr ''dd'') initial_game)) = JNull"
proof -
  have "fst (legal_move (JStr ''dd'') initial_game)" by code_simp
  with legal_move_pure [of "JStr ''dd''" initial_game] show ?thesis
    by (simp add: initial_game_def)
qed


lemma has_liberties_guarded_empty:
  "state_at b p = EMPTY \<Longrightarrow> has_liberties_guarded b p = False"
  by (simp add: has_liberties_guarded_def)




text \<open>
  Claim C10. In every state reached from the initial one by legal moves and passes the
  ko point is \<open>null\<close> or a point of the grid whose cell is empty.
\<close>

theorem ko_invariant:
  "reachable st \<Longrightarrow> ko st = JNull \<or> (in_bounds (ko st) \<and> state_at (board st) (ko st) = EMPTY)"
proof (induction rule: reachable.induct)
  case start
  then show ?case by (simp add: initial_game_def)
next
  case (move st s)
  show ?case by (rule play_ko_cases)
next
  case (pass st s)
  show ?case by (rule play_ko_cases)
qed

section \<open>No read of the legality check fails\<close>

lemma in_bounds_checked_eq: "in_bounds_checked s = Inr (in_bounds s)"
proof (cases s)
  case (JStr cs)
  show ?thesis
  proof (cases "length cs = 2")
    case True
    then obtain a b where "cs = [a, b]" by (auto simp: length_Suc_conv numeral_2_eq_2)
    with JStr show ?thesis
      by (simp add: in_bounds_checked_def in_bounds_def s_to_xy_checked_def charCodeAt_def)
  next
    case False
    with JStr show ?thesis by (simp add: in_bounds_checked_def in_bounds_def)
  qed
qed (simp_all add: in_bounds_checked_def in_bounds_def)

lemma s_to_xy_checked_eq: "in_bounds s \<Longrightarrow> s_to_xy_checked s = Inr (the (s_to_xy s))"
proof -
  assume "in_bounds s"
  then obtain a b where "s = JStr [a, b]"
    by (cases s) (auto simp: in_bounds_def length_Suc_conv numeral_2_eq_2 split: if_splits)
  then show ?thesis by (simp add: s_to_xy_checked_def charCodeAt_def)
qed

lemma neighbours_checked_eq: "neighbours_checked s = Inr (neighbours s)"
  by (cases "in_bounds s")
     (simp_all add: neighbours_checked_def neighbours_def in_bounds_checked_eq s_to_xy_checked_eq
        split: prod.splits)

lemma state_at_checked_out: "\<not> in_bounds s \<Longrightarrow> state_at_checked b s = Inr EMPTY"
  by (simp add: state_at_checked_def in_bounds_checked_eq)

lemma state_at_checked_Inr: "state_at_checked b s = Inr c \<Longrightarrow> c = state_at b s"
  by (cases "in_bounds s")
     (auto simp: state_at_checked_def state_at_def in_bounds_checked_eq s_to_xy_checked_eq
        board_read_def split: prod.splits if_splits)

lemma state_at_checked_eq: "wf_board b \<Longrightarrow> state_at_checked b s = Inr (state_at b s)"
proof (cases "in_bounds s")
  case False
  then show ?thesis by (simp add: state_at_checked_out state_at_out)
next
  case True
  assume wf: "wf_board b"
  from True obtain x y where r: "0 \<le> x" "x < 19" "0 \<le> y" "y < 19" and s: "s_to_xy s = Some (x, y)"
    by (rule in_bounds_coords)
  from wf r have "nat x < length b" "nat y < length (b ! nat x)"
    by (auto simp: wf_board_def list_all_length)
  with True r s show ?thesis
    by (simp add: state_at_checked_def state_at_def in_bounds_checked_eq s_to_xy_checked_eq
        board_read_def)
qed

lemma has_liberties_checked_pmono:
  "has_liberties_checked_has_liberties_loop_checked_dom (Inl (b, s, t)) \<Longrightarrow>
     has_liberties_checked b s t = Inr (r, t') \<Longrightarrow> set t \<subseteq> set t'"
  "has_liberties_checked_has_liberties_loop_checked_dom (Inr (b, c, ns, t)) \<Longrightarrow>
     has_liberties_loop_checked b c ns t = Inr (r, t') \<Longrightarrow> set t \<subseteq> set t'"
proof (induct arbitrary: r t' and r t' rule: has_liberties_checked_has_liberties_loop_checked.pinduct)
  case (1 b s touched)
  from 1(3) 1(1) obtain colour ns where
    "has_liberties_loop_checked b colour ns (touch s touched) = Inr (r, t')"
    and "state_at_checked b s = Inr colour" "neighbours_checked s = Inr ns"
    by (auto simp: has_liberties_checked.psimps split: sum.splits)
  from 1(2) [OF this(2,3,1)] show ?case by (auto simp: set_touch)
next
  case (2 b colour touched)
  then show ?case by (simp add: has_liberties_loop_checked.psimps)
next
  case (3 b colour neighbour rest touched)
  note eq = 3(6) [unfolded has_liberties_loop_checked.psimps(2) [OF 3(1)]]
  show ?case
  proof (cases "neighbour \<in> set touched")
    case True
    with eq 3(2) show ?thesis by simp
  next
    case nt: False
    with eq obtain nc where nc: "state_at_checked b neighbour = Inr nc"
      by (auto split: sum.splits)
    show ?thesis
    proof (cases "nc = EMPTY")
      case True
      with eq nt nc show ?thesis by simp
    next
      case ne: False
      show ?thesis
      proof (cases "nc = colour")
        case False
        with eq nt nc ne 3(5) [OF nt nc ne False] show ?thesis by simp
      next
        case True
        from eq nt nc ne True obtain r2 t2 where rt: "has_liberties_checked b neighbour touched = Inr (r2, t2)"
          by (auto split: sum.splits)
        from 3(3) [OF nt nc ne True rt] have s1: "set touched \<subseteq> set t2" .
        show ?thesis
        proof (cases r2)
          case True
          with eq nt nc ne \<open>nc = colour\<close> rt s1 show ?thesis by simp
        next
          case False
          with eq nt nc ne \<open>nc = colour\<close> rt
          have "has_liberties_loop_checked b colour rest t2 = Inr (r, t')" by simp
          from 3(4) [OF nt nc ne \<open>nc = colour\<close> rt refl False this] s1 show ?thesis by auto
        qed
      qed
    qed
  qed
qed

termination has_liberties_checked
proof (relation "inv_image (less_than <*lex*> less_than)
    (\<lambda>a. case a of
       Inl (b, s, t) \<Rightarrow> (card ({p. in_bounds p} - set (touch s t)), 2 * length (neighbours s) + 1)
     | Inr (b, c, ns, t) \<Rightarrow> (card ({p. in_bounds p} - set t), 2 * length ns))", goal_cases)
  case 1
  then show ?case by (simp add: wf_lex_prod)
next
  case 2
  then show ?case by (simp add: neighbours_checked_eq)
next
  case 3
  then show ?case by simp
next
  case (4 b colour neighbour rest touched nc)
  have "in_bounds neighbour"
  proof (rule ccontr)
    assume "\<not> in_bounds neighbour"
    then have "state_at_checked b neighbour = Inr EMPTY" by (rule state_at_checked_out)
    with 4 show False by simp
  qed
  with 4 show ?case using card_untouched_less [of neighbour touched] by simp
next
  case (5 b colour neighbour rest touched nc res r t')
  then have "has_liberties_checked b neighbour touched = Inr (r, t')" by simp
  with 5 have "set touched \<subseteq> set t'"
    using has_liberties_checked_pmono(1) [of b neighbour touched r t'] by simp
  then show ?case using card_untouched_le [of touched t'] by auto
next
  case 6
  then show ?case by simp
qed

declare has_liberties_checked.simps [simp del]

lemma has_liberties_checked_eq:
  "wf_board b \<Longrightarrow> has_liberties_checked b s t = Inr (has_liberties b s t)"
  "wf_board b \<Longrightarrow> has_liberties_loop_checked b c ns t = Inr (has_liberties_loop b c ns t)"
proof (induct b s t and b c ns t rule: has_liberties_has_liberties_loop.induct)
  case (1 b s touched)
  then show ?case
    by (simp add: has_liberties_checked.simps has_liberties.simps state_at_checked_eq
        neighbours_checked_eq)
next
  case (2 b colour touched)
  then show ?case by simp
next
  case (3 b colour neighbour rest touched)
  note wf = 3(5)
  show ?case
  proof (cases "neighbour \<in> set touched")
    case True
    with 3(1) [OF True wf] show ?thesis by simp
  next
    case nt: False
    show ?thesis
    proof (cases "state_at b neighbour = EMPTY")
      case True
      with nt wf show ?thesis by (simp add: state_at_checked_eq)
    next
      case ne: False
      show ?thesis
      proof (cases "state_at b neighbour = colour")
        case False
        with nt ne wf 3(4) [OF nt ne False wf] show ?thesis by (simp add: state_at_checked_eq)
      next
        case True
        obtain r t' where rt: "has_liberties b neighbour touched = (r, t')"
          by (cases "has_liberties b neighbour touched")
        from 3(2) [OF nt ne True wf] rt
        have c: "has_liberties_checked b neighbour touched = Inr (r, t')" by simp
        show ?thesis
        proof (cases r)
          case True
          with nt ne \<open>state_at b neighbour = colour\<close> wf rt c show ?thesis
            by (simp add: state_at_checked_eq)
        next
          case False
          from 3(3) [OF nt ne \<open>state_at b neighbour = colour\<close> rt [symmetric] False wf]
          have "has_liberties_loop_checked b colour rest t' = Inr (has_liberties_loop b colour rest t')" .
          with nt ne \<open>state_at b neighbour = colour\<close> wf rt c False show ?thesis
            by (simp add: state_at_checked_eq)
        qed
      qed
    qed
  qed
qed

lemma legal_move_empty_loop_checked_eq:
  "wf_board b \<Longrightarrow> legal_move_empty_loop_checked b ns = Inr (legal_move_empty_loop b ns)"
  by (induction ns) (simp_all add: state_at_checked_eq)

lemma legal_move_group_loop_checked_eq:
  "wf_board b \<Longrightarrow> legal_move_group_loop_checked b pl s ns = Inr (legal_move_group_loop b pl s ns)"
  by (induction ns) (auto simp: state_at_checked_eq has_liberties_checked_eq split: prod.splits)

lemma legal_move_checked_out: "\<not> in_bounds p \<Longrightarrow> legal_move_checked p st = Inr (False, st)"
  by (simp add: legal_move_checked_def in_bounds_checked_eq)

lemma legal_move_checked_eq:
  "wf_board (board st) \<Longrightarrow> legal_move_checked p st = Inr (legal_move p st)"
  by (simp add: legal_move_checked_def legal_move_def Let_def in_bounds_checked_eq
      state_at_checked_eq neighbours_checked_eq legal_move_empty_loop_checked_eq
      legal_move_group_loop_checked_eq)

text \<open>
  Claim C4. \<open>legal_move\<close> never fails: on an input that is out of bounds it answers
  \<open>false\<close> before it reads anything, and on a 19 x 19 board the run with the failing
  reads made explicit ends, for every input, in the very answer of \<open>legal_move\<close>, never
  in an error. That answer is \<open>false\<close> for an input that is out of bounds, for an
  occupied point and for the ko point.
\<close>

theorem legal_move_never_fails:
  "(\<not> in_bounds p \<longrightarrow> legal_move_checked p st = Inr (False, st)) \<and>
   (wf_board (board st) \<longrightarrow>
      legal_move_checked p st = Inr (legal_move p st) \<and>
      (state_at (board st) p \<noteq> EMPTY \<or> ko st = p \<longrightarrow> legal_move_checked p st = Inr (False, st))) \<and>
   (\<not> in_bounds p \<or> state_at (board st) p \<noteq> EMPTY \<or> ko st = p \<longrightarrow> fst (legal_move p st) = False)"
proof (intro conjI impI)
  assume "\<not> in_bounds p"
  then show "legal_move_checked p st = Inr (False, st)" by (rule legal_move_checked_out)
next
  assume "wf_board (board st)"
  then show "legal_move_checked p st = Inr (legal_move p st)" by (rule legal_move_checked_eq)
next
  assume "wf_board (board st)" and "state_at (board st) p \<noteq> EMPTY \<or> ko st = p"
  then show "legal_move_checked p st = Inr (False, st)"
    by (auto simp: legal_move_checked_eq legal_move_def)
next
  assume "\<not> in_bounds p \<or> state_at (board st) p \<noteq> EMPTY \<or> ko st = p"
  then show "fst (legal_move p st) = False" by (auto simp: legal_move_def)
qed

theorem legal_move_never_fails_witness:
  "\<not> in_bounds (JNum 3) \<and>
   legal_move_checked (JNum 3) initial_game = Inr (False, initial_game) \<and>
   wf_board (board (play (JStr ''dd'') initial_game)) \<and>
   state_at (board (play (JStr ''dd'') initial_game)) (JStr ''dd'') \<noteq> EMPTY \<and>
   legal_move_checked (JStr ''dd'') (play (JStr ''dd'') initial_game)
     = Inr (False, play (JStr ''dd'') initial_game) \<and>
   wf_board (board (initial_game\<lparr>ko := JStr ''cc''\<rparr>)) \<and>
   ko (initial_game\<lparr>ko := JStr ''cc''\<rparr>) = JStr ''cc'' \<and>
   legal_move_checked (JStr ''cc'') (initial_game\<lparr>ko := JStr ''cc''\<rparr>)
     = Inr (False, initial_game\<lparr>ko := JStr ''cc''\<rparr>) \<and>
   fst (legal_move (JStr ''cc'') (initial_game\<lparr>ko := JStr ''cc''\<rparr>)) = False \<and>
   legal_move_checked (JStr ''cc'') initial_game = Inr (True, initial_game)"
proof -
  have a: "\<not> in_bounds (JNum 3)" by code_simp
  have b: "wf_board (board (play (JStr ''dd'') initial_game))" by code_simp
  have c: "state_at (board (play (JStr ''dd'') initial_game)) (JStr ''dd'') \<noteq> EMPTY" by code_simp
  have d: "wf_board (board (initial_game\<lparr>ko := JStr ''cc''\<rparr>))" by code_simp
  have e: "ko (initial_game\<lparr>ko := JStr ''cc''\<rparr>) = JStr ''cc''" by simp
  have f: "wf_board (board initial_game)" by code_simp
  have g: "legal_move (JStr ''cc'') initial_game = (True, initial_game)" by code_simp
  from a legal_move_never_fails [of "JNum 3" initial_game]
  have 1: "legal_move_checked (JNum 3) initial_game = Inr (False, initial_game)" by blast
  from b c legal_move_never_fails [of "JStr ''dd''" "play (JStr ''dd'') initial_game"]
  have 2: "legal_move_checked (JStr ''dd'') (play (JStr ''dd'') initial_game)
     = Inr (False, play (JStr ''dd'') initial_game)" by blast
  from d e legal_move_never_fails [of "JStr ''cc''" "initial_game\<lparr>ko := JStr ''cc''\<rparr>"]
  have 3: "legal_move_checked (JStr ''cc'') (initial_game\<lparr>ko := JStr ''cc''\<rparr>)
     = Inr (False, initial_game\<lparr>ko := JStr ''cc''\<rparr>)"
    and 4: "fst (legal_move (JStr ''cc'') (initial_game\<lparr>ko := JStr ''cc''\<rparr>)) = False" by blast+
  from f legal_move_never_fails [of "JStr ''cc''" initial_game]
  have "legal_move_checked (JStr ''cc'') initial_game = Inr (legal_move (JStr ''cc'') initial_game)"
    by blast
  with g have 5: "legal_move_checked (JStr ''cc'') initial_game = Inr (True, initial_game)" by simp
  from a b c d e 1 2 3 4 5 show ?thesis by blast
qed

section \<open>Groups\<close>

lemma group_step_sym: "(p, q) \<in> group_step b \<Longrightarrow> (q, p) \<in> group_step b"
  by (auto simp: group_step_def adjacent_sym)

lemma group_step_colour: "(p, q) \<in> (group_step b)\<^sup>* \<Longrightarrow> state_at b q = state_at b p"
  by (induction rule: rtrancl_induct) (auto simp: group_step_def)

lemma group_step_rtrancl_sym: "(p, q) \<in> (group_step b)\<^sup>* \<Longrightarrow> (q, p) \<in> (group_step b)\<^sup>*"
proof (induction rule: rtrancl_induct)
  case base
  show ?case by simp
next
  case (step y z)
  from step.hyps(2) have "(z, y) \<in> group_step b" by (rule group_step_sym)
  then show ?case using step.IH by (rule converse_rtrancl_into_rtrancl)
qed

lemma group_of_self: "p \<in> group_of b p"
  by (simp add: group_of_def)

lemma group_of_colour: "q \<in> group_of b p \<Longrightarrow> state_at b q = state_at b p"
  by (simp add: group_of_def group_step_colour)

lemma group_of_eq: "q \<in> group_of b p \<Longrightarrow> group_of b q = group_of b p"
  unfolding group_of_def
  by (auto dest: group_step_rtrancl_sym intro: rtrancl_trans)

lemma group_at_touched_mono:
  "set t \<subseteq> set (group_at_recurse b s t) \<and> s \<in> set (group_at_recurse b s t)"
  "set t \<subseteq> set (group_at_loop b c ns t)"
  by (induct b s t and b c ns t rule: group_at_recurse_group_at_loop.induct)
     (auto simp: set_touch group_at_recurse.simps)

lemma distinct_touch: "distinct t \<Longrightarrow> distinct (touch s t)"
  by (simp add: touch_def)

lemma group_at_distinct:
  "distinct t \<Longrightarrow> distinct (group_at_recurse b s t)"
  "distinct t \<Longrightarrow> distinct (group_at_loop b c ns t)"
  by (induct b s t and b c ns t rule: group_at_recurse_group_at_loop.induct)
     (auto simp: distinct_touch group_at_recurse.simps)

lemma group_at_sound:
  "q \<in> set (group_at_recurse b s t) \<Longrightarrow> q \<in> set t \<or> (s, q) \<in> (group_step b)\<^sup>*"
  "q \<in> set (group_at_loop b c ns t) \<Longrightarrow>
     q \<in> set t \<or> (\<exists>n \<in> set ns. state_at b n = c \<and> (n, q) \<in> (group_step b)\<^sup>*)"
proof (induct b s t and b c ns t arbitrary: q and q rule: group_at_recurse_group_at_loop.induct)
  case (1 b s touched)
  from 1(2) have "q \<in> set (group_at_loop b (state_at b s) (neighbours s) (touch s touched))"
    by (simp add: group_at_recurse.simps)
  from 1(1) [OF this] consider "q \<in> set touched" | "q = s"
    | n where "n \<in> set (neighbours s)" "state_at b n = state_at b s" "(n, q) \<in> (group_step b)\<^sup>*"
    by (auto simp: set_touch)
  then show ?case
  proof cases
    case 3
    then have "(s, n) \<in> group_step b" by (simp add: group_step_def set_neighbours)
    with 3(3) show ?thesis by (simp add: converse_rtrancl_into_rtrancl)
  qed auto
next
  case (2 b colour touched)
  then show ?case by simp
next
  case (3 b colour neighbour rest touched)
  show ?case
  proof (cases "neighbour \<in> set touched")
    case True
    with 3(1) [OF True, of q] 3(5) show ?thesis by auto
  next
    case nt: False
    show ?thesis
    proof (cases "state_at b neighbour = colour")
      case False
      with 3(4) [OF nt False, of q] 3(5) nt show ?thesis by auto
    next
      case True
      with nt 3(5) have "q \<in> set (group_at_loop b colour rest (group_at_recurse b neighbour touched))"
        by simp
      from 3(3) [OF nt True this]
      consider "q \<in> set (group_at_recurse b neighbour touched)"
        | "\<exists>n \<in> set rest. state_at b n = colour \<and> (n, q) \<in> (group_step b)\<^sup>*" by blast
      then show ?thesis
      proof cases
        case 1
        from 3(2) [OF nt True 1] True show ?thesis by auto
      next
        case 2
        then show ?thesis by auto
      qed
    qed
  qed
qed

lemma group_at_closed:
  "\<forall>q. (q = s \<or> (q \<in> set (group_at_recurse b s t) \<and> q \<notin> set t)) \<longrightarrow>
       (\<forall>n. adjacent q n \<and> state_at b n = state_at b q \<longrightarrow> n \<in> set (group_at_recurse b s t))"
  "(\<forall>n \<in> set ns. state_at b n = c \<longrightarrow> n \<in> set (group_at_loop b c ns t)) \<and>
   (\<forall>q. q \<in> set (group_at_loop b c ns t) \<and> q \<notin> set t \<longrightarrow>
       (\<forall>n. adjacent q n \<and> state_at b n = state_at b q \<longrightarrow> n \<in> set (group_at_loop b c ns t)))"
proof (induct b s t and b c ns t rule: group_at_recurse_group_at_loop.induct)
  case (1 b s touched)
  let ?t' = "group_at_loop b (state_at b s) (neighbours s) (touch s touched)"
  have r: "group_at_recurse b s touched = ?t'" by (rule group_at_recurse.simps)
  show ?case unfolding r
  proof (intro allI impI)
    fix q n
    assume q: "q = s \<or> (q \<in> set ?t' \<and> q \<notin> set touched)"
      and n: "adjacent q n \<and> state_at b n = state_at b q"
    show "n \<in> set ?t'"
    proof (cases "q = s")
      case True
      with n have "n \<in> set (neighbours s)" by (simp add: set_neighbours)
      with 1 n True show ?thesis by blast
    next
      case False
      with q have "q \<in> set ?t' \<and> q \<notin> set (touch s touched)" by (simp add: set_touch)
      with 1 n show ?thesis by blast
    qed
  qed
next
  case (2 b colour touched)
  then show ?case by simp
next
  case (3 b colour neighbour rest touched)
  show ?case
  proof (cases "neighbour \<in> set touched")
    case True
    have "set touched \<subseteq> set (group_at_loop b colour rest touched)"
      by (rule group_at_touched_mono)
    with 3(1) [OF True] True show ?thesis by auto
  next
    case nt: False
    show ?thesis
    proof (cases "state_at b neighbour = colour")
      case False
      with 3(4) [OF nt False] nt show ?thesis by auto
    next
      case True
      let ?t2 = "group_at_recurse b neighbour touched"
      let ?t' = "group_at_loop b colour rest ?t2"
      have e: "group_at_loop b colour (neighbour # rest) touched = ?t'" using nt True by simp
      have m1: "neighbour \<in> set ?t2" by (simp add: group_at_touched_mono)
      have m2: "set ?t2 \<subseteq> set ?t'" by (rule group_at_touched_mono)
      note P = 3(2) [OF nt True] and Q = 3(3) [OF nt True]
      show ?thesis unfolding e
      proof (intro conjI ballI allI impI)
        fix n assume "n \<in> set (neighbour # rest)" "state_at b n = colour"
        with Q m1 m2 show "n \<in> set ?t'" by auto
      next
        fix q n assume q: "q \<in> set ?t' \<and> q \<notin> set touched"
          and n: "adjacent q n \<and> state_at b n = state_at b q"
        show "n \<in> set ?t'"
        proof (cases "q \<in> set ?t2")
          case True
          with P q n have "n \<in> set ?t2" by blast
          with m2 show ?thesis by blast
        next
          case False
          with Q q n show ?thesis by blast
        qed
      qed
    qed
  qed
qed

lemma group_at_recurse_correct: "set (group_at_recurse b s []) = group_of b s"
proof (intro set_eqI iffI)
  fix q assume "q \<in> set (group_at_recurse b s [])"
  from group_at_sound(1) [OF this] show "q \<in> group_of b s" by (simp add: group_of_def)
next
  fix q assume "q \<in> group_of b s"
  then have "(s, q) \<in> (group_step b)\<^sup>*" by (simp add: group_of_def)
  then show "q \<in> set (group_at_recurse b s [])"
  proof (induction rule: rtrancl_induct)
    case base
    show ?case by (simp add: group_at_touched_mono)
  next
    case (step y z)
    from step.hyps(2) have "adjacent y z \<and> state_at b z = state_at b y" by (simp add: group_step_def)
    with group_at_closed(1) [of s b "[]"] step.IH show ?case by auto
  qed
qed

lemma set_group_at:
  "set (group_at b s) = (if state_at b s = EMPTY then {} else group_of b s)"
  by (simp add: group_at_def group_at_recurse_correct)

lemma distinct_group_at: "distinct (group_at b s)"
  by (simp add: group_at_def group_at_distinct)

text \<open>
  Claim C7. \<open>group_at\<close> returns no point for an empty point; for a stone it returns
  exactly the points reachable from it through adjacent points holding the same stone,
  that is the maximal 4-connected same-colour component; and every member of the result,
  taken as the seed, yields the same set.
\<close>

theorem group_at_component:
  "(state_at b p = EMPTY \<longrightarrow> group_at b p = []) \<and>
   (state_at b p \<noteq> EMPTY \<longrightarrow> set (group_at b p) = group_of b p) \<and>
   (\<forall>q \<in> set (group_at b p). set (group_at b q) = set (group_at b p))"
proof (intro conjI impI ballI)
  assume "state_at b p = EMPTY"
  then show "group_at b p = []" by (simp add: group_at_def)
next
  assume "state_at b p \<noteq> EMPTY"
  then show "set (group_at b p) = group_of b p" by (simp add: set_group_at)
next
  fix q assume q: "q \<in> set (group_at b p)"
  then have ne: "state_at b p \<noteq> EMPTY" and g: "q \<in> group_of b p"
    by (auto simp: set_group_at split: if_splits)
  from g have "state_at b q = state_at b p" by (rule group_of_colour)
  with ne g show "set (group_at b q) = set (group_at b p)"
    by (simp add: set_group_at group_of_eq)
qed

section \<open>What the liberty search computes\<close>

lemma has_liberties_touched_mono:
  "set t \<subseteq> set (snd (has_liberties b s t)) \<and> s \<in> set (snd (has_liberties b s t))"
  "set t \<subseteq> set (snd (has_liberties_loop b c ns t))"
proof (induct b s t and b c ns t rule: has_liberties_has_liberties_loop.induct)
  case (1 b s touched)
  then show ?case by (auto simp: has_liberties.simps set_touch)
next
  case (2 b colour touched)
  then show ?case by simp
next
  case (3 b colour neighbour rest touched)
  show ?case
  proof (cases "neighbour \<in> set touched")
    case True
    with 3 show ?thesis by simp
  next
    case nt: False
    show ?thesis
    proof (cases "state_at b neighbour = EMPTY")
      case True
      with nt show ?thesis by simp
    next
      case ne: False
      show ?thesis
      proof (cases "state_at b neighbour = colour")
        case False
        with nt ne 3 show ?thesis by simp
      next
        case True
        obtain r t' where rt: "has_liberties b neighbour touched = (r, t')"
          by (cases "has_liberties b neighbour touched")
        from 3(2) [OF nt ne True] rt have s1: "set touched \<subseteq> set t'" by simp
        show ?thesis
        proof (cases r)
          case True
          with nt ne \<open>state_at b neighbour = colour\<close> rt s1 show ?thesis by simp
        next
          case False
          from 3(3) [OF nt ne \<open>state_at b neighbour = colour\<close> rt [symmetric] False]
          have "set t' \<subseteq> set (snd (has_liberties_loop b colour rest t'))" .
          with s1 nt ne \<open>state_at b neighbour = colour\<close> rt False show ?thesis by simp
        qed
      qed
    qed
  qed
qed

lemma has_liberties_touched_sound:
  "q \<in> set (snd (has_liberties b s t)) \<Longrightarrow> q \<in> set t \<or> (s, q) \<in> (group_step b)\<^sup>*"
  "q \<in> set (snd (has_liberties_loop b c ns t)) \<Longrightarrow>
     q \<in> set t \<or> (\<exists>n \<in> set ns. state_at b n = c \<and> (n, q) \<in> (group_step b)\<^sup>*)"
proof (induct b s t and b c ns t arbitrary: q and q rule: has_liberties_has_liberties_loop.induct)
  case (1 b s touched)
  from 1(2) have "q \<in> set (snd (has_liberties_loop b (state_at b s) (neighbours s) (touch s touched)))"
    by (simp add: has_liberties.simps)
  from 1(1) [OF this] consider "q \<in> set touched" | "q = s"
    | n where "n \<in> set (neighbours s)" "state_at b n = state_at b s" "(n, q) \<in> (group_step b)\<^sup>*"
    by (auto simp: set_touch)
  then show ?case
  proof cases
    case 3
    then have "(s, n) \<in> group_step b" by (simp add: group_step_def set_neighbours)
    with 3(3) show ?thesis by (simp add: converse_rtrancl_into_rtrancl)
  qed auto
next
  case (2 b colour touched)
  then show ?case by simp
next
  case (3 b colour neighbour rest touched)
  show ?case
  proof (cases "neighbour \<in> set touched")
    case True
    with 3(1) [OF True, of q] 3(5) show ?thesis by auto
  next
    case nt: False
    show ?thesis
    proof (cases "state_at b neighbour = EMPTY")
      case True
      with nt 3(5) show ?thesis by simp
    next
      case ne: False
      show ?thesis
      proof (cases "state_at b neighbour = colour")
        case False
        with 3(4) [OF nt ne False, of q] 3(5) nt ne show ?thesis by auto
      next
        case True
        obtain r t' where rt: "has_liberties b neighbour touched = (r, t')"
          by (cases "has_liberties b neighbour touched")
        note P = 3(2) [OF nt ne True]
        show ?thesis
        proof (cases r)
          case True
          with nt ne \<open>state_at b neighbour = colour\<close> rt 3(5) have "q \<in> set t'" by simp
          with P [of q] rt \<open>state_at b neighbour = colour\<close> show ?thesis by auto
        next
          case False
          note Q = 3(3) [OF nt ne True rt [symmetric] False]
          from False nt ne True rt 3(5) have "q \<in> set (snd (has_liberties_loop b colour rest t'))"
            by simp
          from Q [OF this] consider "q \<in> set t'"
            | "\<exists>n \<in> set rest. state_at b n = colour \<and> (n, q) \<in> (group_step b)\<^sup>*" by blast
          then show ?thesis
          proof cases
            case 1
            with P [of q] rt True show ?thesis by auto
          next
            case 2
            then show ?thesis by auto
          qed
        qed
      qed
    qed
  qed
qed

lemma has_liberties_true:
  "fst (has_liberties b s t) \<Longrightarrow>
     \<exists>q m. (s, q) \<in> (group_step b)\<^sup>* \<and> adjacent q m \<and> state_at b m = EMPTY \<and> m \<notin> set t"
  "fst (has_liberties_loop b c ns t) \<Longrightarrow>
     \<exists>n \<in> set ns. n \<notin> set t \<and>
        (state_at b n = EMPTY \<or>
         (state_at b n = c \<and>
          (\<exists>q m. (n, q) \<in> (group_step b)\<^sup>* \<and> adjacent q m \<and> state_at b m = EMPTY \<and> m \<notin> set t)))"
proof (induct b s t and b c ns t rule: has_liberties_has_liberties_loop.induct)
  case (1 b s touched)
  from 1(2) have "fst (has_liberties_loop b (state_at b s) (neighbours s) (touch s touched))"
    by (simp add: has_liberties.simps)
  from 1(1) [OF this] obtain n where n: "n \<in> set (neighbours s)" "n \<notin> set (touch s touched)"
    and d: "state_at b n = EMPTY \<or>
         (state_at b n = state_at b s \<and>
          (\<exists>q m. (n, q) \<in> (group_step b)\<^sup>* \<and> adjacent q m \<and> state_at b m = EMPTY \<and> m \<notin> set (touch s touched)))"
    by blast
  from n(1) have a: "adjacent s n" by (simp add: set_neighbours)
  from d show ?case
  proof
    assume "state_at b n = EMPTY"
    with a n(2) have "(s, s) \<in> (group_step b)\<^sup>* \<and> adjacent s n \<and> state_at b n = EMPTY \<and> n \<notin> set touched"
      by (simp add: set_touch)
    then show ?thesis by blast
  next
    assume "state_at b n = state_at b s \<and>
          (\<exists>q m. (n, q) \<in> (group_step b)\<^sup>* \<and> adjacent q m \<and> state_at b m = EMPTY \<and> m \<notin> set (touch s touched))"
    then obtain q m where c: "state_at b n = state_at b s" and qm: "(n, q) \<in> (group_step b)\<^sup>*"
      "adjacent q m" "state_at b m = EMPTY" "m \<notin> set (touch s touched)" by blast
    from a c have "(s, n) \<in> group_step b" by (simp add: group_step_def)
    with qm(1) have "(s, q) \<in> (group_step b)\<^sup>*" by (simp add: converse_rtrancl_into_rtrancl)
    with qm show ?thesis by (auto simp: set_touch)
  qed
next
  case (2 b colour touched)
  then show ?case by simp
next
  case (3 b colour neighbour rest touched)
  show ?case
  proof (cases "neighbour \<in> set touched")
    case True
    with 3(1) [OF True] 3(5) show ?thesis by auto
  next
    case nt: False
    show ?thesis
    proof (cases "state_at b neighbour = EMPTY")
      case True
      with nt show ?thesis by auto
    next
      case ne: False
      show ?thesis
      proof (cases "state_at b neighbour = colour")
        case False
        with 3(4) [OF nt ne False] 3(5) nt ne show ?thesis by auto
      next
        case True
        obtain r t' where rt: "has_liberties b neighbour touched = (r, t')"
          by (cases "has_liberties b neighbour touched")
        show ?thesis
        proof (cases r)
          case True
          with 3(2) [OF nt ne \<open>state_at b neighbour = colour\<close>] rt nt \<open>state_at b neighbour = colour\<close>
          show ?thesis by auto
        next
          case False
          have sub: "set touched \<subseteq> set t'"
            using has_liberties_touched_mono(1) [of touched b neighbour] rt by simp
          from False nt ne True rt 3(5) have "fst (has_liberties_loop b colour rest t')" by simp
          from 3(3) [OF nt ne True rt [symmetric] False this]
          obtain n where n: "n \<in> set rest" "n \<notin> set t'"
            and d: "state_at b n = EMPTY \<or>
               (state_at b n = colour \<and>
                (\<exists>q m. (n, q) \<in> (group_step b)\<^sup>* \<and> adjacent q m \<and> state_at b m = EMPTY \<and> m \<notin> set t'))"
            by blast
          from d sub have "state_at b n = EMPTY \<or>
               (state_at b n = colour \<and>
                (\<exists>q m. (n, q) \<in> (group_step b)\<^sup>* \<and> adjacent q m \<and> state_at b m = EMPTY \<and> m \<notin> set touched))"
            by blast
          moreover from n sub have "n \<in> set (neighbour # rest)" "n \<notin> set touched" by auto
          ultimately show ?thesis by blast
        qed
      qed
    qed
  qed
qed

lemma has_liberties_false:
  "\<not> fst (has_liberties b s t) \<Longrightarrow>
     \<forall>q. (q = s \<or> (q \<in> set (snd (has_liberties b s t)) \<and> q \<notin> set t)) \<longrightarrow>
       (\<forall>n. adjacent q n \<longrightarrow>
          n \<in> set (snd (has_liberties b s t)) \<or> (state_at b n \<noteq> EMPTY \<and> state_at b n \<noteq> state_at b q))"
  "\<not> fst (has_liberties_loop b c ns t) \<Longrightarrow>
     (\<forall>n \<in> set ns. n \<in> set (snd (has_liberties_loop b c ns t)) \<or> (state_at b n \<noteq> EMPTY \<and> state_at b n \<noteq> c)) \<and>
     (\<forall>q. q \<in> set (snd (has_liberties_loop b c ns t)) \<and> q \<notin> set t \<longrightarrow>
       (\<forall>n. adjacent q n \<longrightarrow>
          n \<in> set (snd (has_liberties_loop b c ns t)) \<or> (state_at b n \<noteq> EMPTY \<and> state_at b n \<noteq> state_at b q)))"
proof (induct b s t and b c ns t rule: has_liberties_has_liberties_loop.induct)
  case (1 b s touched)
  let ?r = "has_liberties_loop b (state_at b s) (neighbours s) (touch s touched)"
  have e: "has_liberties b s touched = ?r" by (rule has_liberties.simps)
  from 1(2) have nf: "\<not> fst ?r" by (simp add: e)
  note Q = 1(1) [OF nf]
  show ?case unfolding e
  proof (intro allI impI)
    fix q n
    assume q: "q = s \<or> (q \<in> set (snd ?r) \<and> q \<notin> set touched)" and n: "adjacent q n"
    show "n \<in> set (snd ?r) \<or> (state_at b n \<noteq> EMPTY \<and> state_at b n \<noteq> state_at b q)"
    proof (cases "q = s")
      case True
      with n have "n \<in> set (neighbours s)" by (simp add: set_neighbours)
      with Q True show ?thesis by blast
    next
      case False
      with q have "q \<in> set (snd ?r) \<and> q \<notin> set (touch s touched)" by (simp add: set_touch)
      with Q n show ?thesis by blast
    qed
  qed
next
  case (2 b colour touched)
  then show ?case by simp
next
  case (3 b colour neighbour rest touched)
  show ?case
  proof (cases "neighbour \<in> set touched")
    case True
    have "set touched \<subseteq> set (snd (has_liberties_loop b colour rest touched))"
      by (rule has_liberties_touched_mono)
    moreover from True 3(5) have "\<not> fst (has_liberties_loop b colour rest touched)" by simp
    ultimately show ?thesis using 3(1) [OF True] True by auto
  next
    case nt: False
    show ?thesis
    proof (cases "state_at b neighbour = EMPTY")
      case True
      with nt 3(5) show ?thesis by simp
    next
      case ne: False
      show ?thesis
      proof (cases "state_at b neighbour = colour")
        case False
        with nt ne 3(5) have "\<not> fst (has_liberties_loop b colour rest touched)" by simp
        with 3(4) [OF nt ne False] nt ne False show ?thesis by auto
      next
        case True
        obtain r t2 where rt: "has_liberties b neighbour touched = (r, t2)"
          by (cases "has_liberties b neighbour touched")
        from 3(5) nt ne True rt have nr: "\<not> r" by (auto split: if_splits)
        let ?r' = "has_liberties_loop b colour rest t2"
        from nr nt ne True rt have e: "has_liberties_loop b colour (neighbour # rest) touched = ?r'"
          by simp
        from 3(5) e have nf: "\<not> fst ?r'" by simp
        have m1: "neighbour \<in> set t2" "set touched \<subseteq> set t2"
          using has_liberties_touched_mono(1) [of touched b neighbour] rt by simp_all
        have m2: "set t2 \<subseteq> set (snd ?r')" by (rule has_liberties_touched_mono)
        from nr rt have "\<not> fst (has_liberties b neighbour touched)" by simp
        from 3(2) [OF nt ne True this] rt
        have P: "\<forall>q. (q = neighbour \<or> (q \<in> set t2 \<and> q \<notin> set touched)) \<longrightarrow>
           (\<forall>n. adjacent q n \<longrightarrow> n \<in> set t2 \<or> (state_at b n \<noteq> EMPTY \<and> state_at b n \<noteq> state_at b q))"
          by simp
        note Q = 3(3) [OF nt ne True rt [symmetric] nr nf]
        show ?thesis unfolding e
        proof (intro conjI ballI allI impI)
          fix n assume "n \<in> set (neighbour # rest)"
          with Q m1 m2
          show "n \<in> set (snd ?r') \<or> (state_at b n \<noteq> EMPTY \<and> state_at b n \<noteq> colour)" by auto
        next
          fix q n assume q: "q \<in> set (snd ?r') \<and> q \<notin> set touched" and n: "adjacent q n"
          show "n \<in> set (snd ?r') \<or> (state_at b n \<noteq> EMPTY \<and> state_at b n \<noteq> state_at b q)"
          proof (cases "q \<in> set t2")
            case True
            with P q n have "n \<in> set t2 \<or> (state_at b n \<noteq> EMPTY \<and> state_at b n \<noteq> state_at b q)"
              by blast
            with m2 show ?thesis by blast
          next
            case False
            with Q q n show ?thesis by blast
          qed
        qed
      qed
    qed
  qed
qed

lemma has_liberties_iff:
  assumes ne: "state_at b s \<noteq> EMPTY" and t: "\<forall>x \<in> set t. state_at b x \<noteq> state_at b s"
  shows "fst (has_liberties b s t) \<longleftrightarrow>
    (\<exists>q \<in> group_of b s. \<exists>m. adjacent q m \<and> state_at b m = EMPTY \<and> m \<notin> set t)"
proof
  assume "fst (has_liberties b s t)"
  from has_liberties_true(1) [OF this] show
    "\<exists>q \<in> group_of b s. \<exists>m. adjacent q m \<and> state_at b m = EMPTY \<and> m \<notin> set t"
    by (auto simp: group_of_def)
next
  assume "\<exists>q \<in> group_of b s. \<exists>m. adjacent q m \<and> state_at b m = EMPTY \<and> m \<notin> set t"
  then obtain q m where q: "(s, q) \<in> (group_step b)\<^sup>*"
    and m: "adjacent q m" "state_at b m = EMPTY" "m \<notin> set t"
    by (auto simp: group_of_def)
  show "fst (has_liberties b s t)"
  proof (rule ccontr)
    assume nf: "\<not> fst (has_liberties b s t)"
    let ?t' = "snd (has_liberties b s t)"
    note C = has_liberties_false(1) [OF nf]
    from q have "q = s \<or> (q \<in> set ?t' \<and> q \<notin> set t)"
    proof (induction rule: rtrancl_induct)
      case base
      show ?case by simp
    next
      case (step y z)
      from step.hyps(2) have a: "adjacent y z" and c: "state_at b z = state_at b y"
        by (simp_all add: group_step_def)
      from step.hyps(1) have cy: "state_at b y = state_at b s" by (rule group_step_colour)
      from C step.IH a have "z \<in> set ?t' \<or> (state_at b z \<noteq> EMPTY \<and> state_at b z \<noteq> state_at b y)"
        by blast
      with c have "z \<in> set ?t'" by simp
      moreover from t c cy have "z \<notin> set t" by auto
      ultimately show ?case by simp
    qed
    with C m(1) have "m \<in> set ?t' \<or> (state_at b m \<noteq> EMPTY \<and> state_at b m \<noteq> state_at b q)"
      by blast
    with m(2) have "m \<in> set ?t'" by simp
    from has_liberties_touched_sound(1) [OF this] m(3) have "(s, m) \<in> (group_step b)\<^sup>*" by simp
    then have "state_at b m = state_at b s" by (rule group_step_colour)
    with m(2) ne show False by simp
  qed
qed

lemma has_liberties_nil:
  "state_at b s \<noteq> EMPTY \<Longrightarrow> fst (has_liberties b s []) \<longleftrightarrow> liberties b (group_of b s) \<noteq> {}"
  using has_liberties_iff [of b s "[]"] by (auto simp: liberties_def)

section \<open>Placing a stone; suicide\<close>

lemma wf_set_cell:
  assumes "wf_board b"
  shows "wf_board (set_cell b p c)"
proof -
  obtain x y where xy: "the (s_to_xy p) = (x, y)" by (cases "the (s_to_xy p)")
  have "length ((b[nat x := (b ! nat x)[nat y := c]]) ! n) = 19" if "n < 19" for n
  proof (cases "n = nat x")
    case True
    with that assms show ?thesis by (simp add: wf_board_def list_all_length)
  next
    case False
    with that assms show ?thesis by (simp add: wf_board_def list_all_length)
  qed
  with assms show ?thesis by (simp add: wf_board_def set_cell_def xy list_all_length)
qed

lemma state_at_set_cell:
  assumes "wf_board b" "in_bounds p"
  shows "state_at (set_cell b p c) q = (if q = p then c else state_at b q)"
proof (cases "in_bounds q")
  case False
  with assms show ?thesis by (auto simp: state_at_out)
next
  case True
  from assms(2) obtain x y where r: "0 \<le> x" "x < 19" "0 \<le> y" "y < 19"
    and p: "p = xy_to_s x y" "s_to_xy p = Some (x, y)" by (rule in_bounds_coords)
  from True obtain x' y' where r': "0 \<le> x'" "x' < 19" "0 \<le> y'" "y' < 19"
    and q: "q = xy_to_s x' y'" "s_to_xy q = Some (x', y')" by (rule in_bounds_coords)
  have eq: "q = p \<longleftrightarrow> x' = x \<and> y' = y"
    using xy_to_s_inject [OF r' r] p(1) q(1) by auto
  from assms(1) r r' have len: "nat x < length b" "nat x' < length b" "nat y < length (b ! nat x)"
    "nat y' < length (b ! nat x')"
    by (auto simp: wf_board_def list_all_length)
  have "state_at (set_cell b p c) q = (b[nat x := (b ! nat x)[nat y := c]]) ! nat x' ! nat y'"
    using True p(2) q(2) by (simp add: state_at_def set_cell_def)
  also have "\<dots> = (if x' = x \<and> y' = y then c else b ! nat x' ! nat y')"
    using len r r' by (auto simp: nth_list_update)
  also have "b ! nat x' ! nat y' = state_at b q"
    using True q(2) by (simp add: state_at_def)
  finally show ?thesis using eq by simp
qed

lemma group_of_subset:
  assumes "\<forall>q \<in> group_of b s. state_at b' q = state_at b q"
  shows "group_of b s \<subseteq> group_of b' s"
proof
  fix q assume "q \<in> group_of b s"
  then have "(s, q) \<in> (group_step b)\<^sup>*" by (simp add: group_of_def)
  then have "(s, q) \<in> (group_step b')\<^sup>*"
  proof (induction rule: rtrancl_induct)
    case base
    show ?case by simp
  next
    case (step y z)
    from step.hyps have "y \<in> group_of b s" "z \<in> group_of b s"
      by (auto simp: group_of_def intro: rtrancl_into_rtrancl)
    with assms have "state_at b' y = state_at b y" "state_at b' z = state_at b z" by auto
    with step.hyps(2) have "(y, z) \<in> group_step b'" by (simp add: group_step_def)
    with step.IH show ?case by (rule rtrancl_into_rtrancl)
  qed
  then show "q \<in> group_of b' s" by (simp add: group_of_def)
qed

lemma legal_move_empty_loop_iff:
  "legal_move_empty_loop b ns \<longleftrightarrow> (\<exists>n \<in> set ns. state_at b n = EMPTY)"
  by (induction ns) auto

lemma legal_move_group_loop_iff:
  "legal_move_group_loop b pl s ns \<longleftrightarrow>
     (\<exists>n \<in> set ns. (state_at b n = pl \<and> fst (has_liberties b n (touch s [])))
        \<or> (state_at b n \<noteq> pl \<and> state_at b n \<noteq> EMPTY \<and> \<not> fst (has_liberties b n (touch s []))))"
  by (induction ns) auto

text \<open>
  Claim C1. Suicide is refused. Let the player to move put a stone on \<open>p\<close>. If on the
  board so obtained the group of that stone has no liberty, and every opponent group next
  to \<open>p\<close> still has one (so nothing would be captured), then \<open>legal_move\<close> answers
  \<open>false\<close> for \<open>p\<close>.
\<close>

theorem legal_move_no_suicide:
  assumes wf: "wf_board (board st)" and pl: "player st = BLACK \<or> player st = WHITE"
    and dead: "liberties (set_cell (board st) p (player st))
                 (group_of (set_cell (board st) p (player st)) p) = {}"
    and nocap: "\<forall>n. adjacent p n
                 \<and> state_at (set_cell (board st) p (player st)) n \<noteq> EMPTY
                 \<and> state_at (set_cell (board st) p (player st)) n \<noteq> player st
               \<longrightarrow> liberties (set_cell (board st) p (player st))
                     (group_of (set_cell (board st) p (player st)) n) \<noteq> {}"
  shows "fst (legal_move p st) = False"
proof (cases "in_bounds p \<and> state_at (board st) p = EMPTY")
  case False
  then show ?thesis by (auto simp: legal_move_def)
next
  case True
  then have ib: "in_bounds p" and pe: "state_at (board st) p = EMPTY" by simp_all
  let ?b = "board st" and ?c = "player st"
  let ?b' = "set_cell ?b p ?c"
  from pl have cne: "?c \<noteq> EMPTY" by auto
  have upd: "\<And>q. state_at ?b' q = (if q = p then ?c else state_at ?b q)"
    using wf ib by (rule state_at_set_cell)
  have no_empty: "\<not> legal_move_empty_loop ?b (neighbours p)"
  proof
    assume "legal_move_empty_loop ?b (neighbours p)"
    then obtain n where n: "adjacent p n" "state_at ?b n = EMPTY"
      by (auto simp: legal_move_empty_loop_iff set_neighbours)
    from n(1) have "n \<noteq> p" using adjacent_neq by blast
    with n(2) have "state_at ?b' n = EMPTY" by (simp add: upd)
    with n(1) have "n \<in> liberties ?b' (group_of ?b' p)"
      by (auto simp: liberties_def group_of_self)
    with dead show False by simp
  qed
  have no_group: "\<not> legal_move_group_loop ?b ?c p (neighbours p)"
  proof
    assume "legal_move_group_loop ?b ?c p (neighbours p)"
    then obtain n where n: "adjacent p n"
      and d: "(state_at ?b n = ?c \<and> fst (has_liberties ?b n [p]))
        \<or> (state_at ?b n \<noteq> ?c \<and> state_at ?b n \<noteq> EMPTY \<and> \<not> fst (has_liberties ?b n [p]))"
      by (auto simp: legal_move_group_loop_iff set_neighbours touch_def)
    from n have np: "n \<noteq> p" using adjacent_neq by blast
    then have same: "state_at ?b' n = state_at ?b n" by (simp add: upd)
    from d show False
    proof
      assume f: "state_at ?b n = ?c \<and> fst (has_liberties ?b n [p])"
      have "fst (has_liberties ?b n [p]) \<longleftrightarrow>
          (\<exists>q \<in> group_of ?b n. \<exists>m. adjacent q m \<and> state_at ?b m = EMPTY \<and> m \<notin> set [p])"
        by (rule has_liberties_iff) (use f cne pe in auto)
      with f have "\<exists>q \<in> group_of ?b n. \<exists>m. adjacent q m \<and> state_at ?b m = EMPTY \<and> m \<notin> set [p]"
        by simp
      then obtain q m where q: "q \<in> group_of ?b n" and m: "adjacent q m" "state_at ?b m = EMPTY" "m \<noteq> p"
        by auto
      have "\<forall>q \<in> group_of ?b n. state_at ?b' q = state_at ?b q"
      proof
        fix q assume "q \<in> group_of ?b n"
        then have "state_at ?b q = ?c" using f by (simp add: group_of_colour)
        with pe cne have "q \<noteq> p" by auto
        then show "state_at ?b' q = state_at ?b q" by (simp add: upd)
      qed
      then have "group_of ?b n \<subseteq> group_of ?b' n" by (rule group_of_subset)
      with q have "(n, q) \<in> (group_step ?b')\<^sup>*" by (auto simp: group_of_def)
      moreover from n f same have "(p, n) \<in> group_step ?b'" by (simp add: group_step_def upd)
      ultimately have "q \<in> group_of ?b' p"
        by (simp add: group_of_def converse_rtrancl_into_rtrancl)
      moreover from m have "state_at ?b' m = EMPTY" by (simp add: upd)
      ultimately have "m \<in> liberties ?b' (group_of ?b' p)" using m(1) by (auto simp: liberties_def)
      with dead show False by simp
    next
      assume e: "state_at ?b n \<noteq> ?c \<and> state_at ?b n \<noteq> EMPTY \<and> \<not> fst (has_liberties ?b n [p])"
      with n same nocap have "liberties ?b' (group_of ?b' n) \<noteq> {}" by simp
      then obtain q m where q: "q \<in> group_of ?b' n" and m: "adjacent q m" "state_at ?b' m = EMPTY"
        by (auto simp: liberties_def)
      from m(2) cne have mp: "m \<noteq> p" by (auto simp: upd)
      with m(2) have me: "state_at ?b m = EMPTY" by (simp add: upd)
      have "\<forall>q \<in> group_of ?b' n. state_at ?b q = state_at ?b' q"
      proof
        fix q assume "q \<in> group_of ?b' n"
        then have "state_at ?b' q = state_at ?b' n" by (rule group_of_colour)
        with same e have "state_at ?b' q \<noteq> ?c" by simp
        then have "q \<noteq> p" by (auto simp: upd)
        then show "state_at ?b q = state_at ?b' q" by (simp add: upd)
      qed
      then have "group_of ?b' n \<subseteq> group_of ?b n" by (rule group_of_subset)
      with q have "q \<in> group_of ?b n" by auto
      with m(1) me mp have "\<exists>q \<in> group_of ?b n. \<exists>m. adjacent q m \<and> state_at ?b m = EMPTY \<and> m \<notin> set [p]"
        by auto
      moreover have "fst (has_liberties ?b n [p]) \<longleftrightarrow>
          (\<exists>q \<in> group_of ?b n. \<exists>m. adjacent q m \<and> state_at ?b m = EMPTY \<and> m \<notin> set [p])"
        by (rule has_liberties_iff) (use e pe in auto)
      ultimately have "fst (has_liberties ?b n [p])" by simp
      with e show False by simp
    qed
  qed
  from no_empty no_group show ?thesis by (simp add: legal_move_def Let_def)
qed

section \<open>Captures\<close>

lemma state_at_in_bounds: "state_at b q \<noteq> EMPTY \<Longrightarrow> in_bounds q"
  using state_at_out by blast

lemma fold_set_cell:
  "wf_board b \<Longrightarrow> \<forall>q \<in> set qs. in_bounds q \<Longrightarrow>
     wf_board (fold (\<lambda>q b'. set_cell b' q c) qs b) \<and>
     (\<forall>x. state_at (fold (\<lambda>q b'. set_cell b' q c) qs b) x = (if x \<in> set qs then c else state_at b x))"
proof (induction qs arbitrary: b)
  case Nil
  then show ?case by simp
next
  case (Cons q qs)
  from Cons.prems have wf': "wf_board (set_cell b q c)" and ib: "in_bounds q"
    by (simp_all add: wf_set_cell)
  from Cons.IH [OF wf'] Cons.prems(2) state_at_set_cell [OF Cons.prems(1) ib]
  show ?case by auto
qed

lemma group_at_in_bounds: "q \<in> set (group_at b s) \<Longrightarrow> in_bounds q"
proof -
  assume q: "q \<in> set (group_at b s)"
  then have "state_at b s \<noteq> EMPTY" "q \<in> group_of b s"
    by (auto simp: set_group_at split: if_splits)
  then have "state_at b q \<noteq> EMPTY" by (simp add: group_of_colour)
  then show ?thesis by (rule state_at_in_bounds)
qed

lemma wf_destroy_group: "wf_board b \<Longrightarrow> wf_board (fst (destroy_group b s))"
  using fold_set_cell [of b "group_at b s" EMPTY] group_at_in_bounds
  by (auto simp: destroy_group_def Let_def)

lemma state_at_destroy_group:
  "wf_board b \<Longrightarrow>
     state_at (fst (destroy_group b s)) x = (if x \<in> set (group_at b s) then EMPTY else state_at b x)"
  using fold_set_cell [of b "group_at b s" EMPTY] group_at_in_bounds
  by (auto simp: destroy_group_def Let_def)

lemma snd_destroy_group: "snd (destroy_group b s) = card (set (group_at b s))"
  by (simp add: destroy_group_def Let_def distinct_card distinct_group_at)

text \<open>Taking a whole group off the board leaves every other group and its liberties.\<close>

lemma liberties_after_removal:
  assumes rem: "\<forall>x. state_at b' x = (if x \<in> set (group_at b g) then EMPTY else state_at b x)"
    and n: "state_at b' n \<noteq> EMPTY"
  shows "liberties b (group_of b n) \<subseteq> liberties b' (group_of b' n)"
proof -
  have disj: "q \<notin> set (group_at b g)" if "q \<in> group_of b n" for q
  proof
    assume "q \<in> set (group_at b g)"
    then have "state_at b g \<noteq> EMPTY" and qg: "q \<in> group_of b g"
      by (auto simp: set_group_at split: if_splits)
    from that have "group_of b q = group_of b n" by (rule group_of_eq)
    moreover from qg have "group_of b q = group_of b g" by (rule group_of_eq)
    ultimately have "n \<in> group_of b g" using group_of_self [of n b] by simp
    with \<open>state_at b g \<noteq> EMPTY\<close> have "n \<in> set (group_at b g)" by (simp add: set_group_at)
    with rem n show False by simp
  qed
  with rem have "\<forall>q \<in> group_of b n. state_at b' q = state_at b q" by simp
  then have sub: "group_of b n \<subseteq> group_of b' n" by (rule group_of_subset)
  show ?thesis
  proof
    fix m assume "m \<in> liberties b (group_of b n)"
    then obtain q where q: "q \<in> group_of b n" "adjacent q m" "state_at b m = EMPTY"
      by (auto simp: liberties_def)
    from q(3) rem have "state_at b' m = EMPTY" by simp
    with q sub show "m \<in> liberties b' (group_of b' n)" by (auto simp: liberties_def)
  qed
qed

lemma finite_captured: "finite (captured c b b')"
  unfolding captured_def by (rule finite_subset [OF _ finite_in_bounds]) (auto dest: state_at_in_bounds)

lemma captured_same: "captured c b b = {}"
  by (auto simp: captured_def)

lemma capture_loop_props:
  assumes "wf_board b"
  shows "wf_board (fst (capture_loop c ns (b, k))) \<and>
    (\<forall>q. state_at (fst (capture_loop c ns (b, k))) q = state_at b q \<or>
         (state_at b q \<noteq> EMPTY \<and> state_at b q \<noteq> c \<and> state_at (fst (capture_loop c ns (b, k))) q = EMPTY)) \<and>
    snd (capture_loop c ns (b, k)) = k + card (captured c b (fst (capture_loop c ns (b, k)))) \<and>
    (snd (capture_loop c ns (b, k)) \<noteq> k \<longrightarrow>
       (\<exists>n \<in> set ns. state_at (fst (capture_loop c ns (b, k))) n = EMPTY)) \<and>
    ((\<forall>n \<in> S. state_at b n \<noteq> EMPTY \<and> state_at b n \<noteq> c \<longrightarrow> liberties b (group_of b n) \<noteq> {}) \<longrightarrow>
     (\<forall>n \<in> S \<union> set ns. state_at (fst (capture_loop c ns (b, k))) n \<noteq> EMPTY
                          \<and> state_at (fst (capture_loop c ns (b, k))) n \<noteq> c
          \<longrightarrow> liberties (fst (capture_loop c ns (b, k))) (group_of (fst (capture_loop c ns (b, k))) n) \<noteq> {}))"
  using assms
proof (induction ns arbitrary: b k S)
  case Nil
  then show ?case by (simp add: captured_same)
next
  case (Cons n0 rest)
  let ?R = "capture_loop c (n0 # rest) (b, k)"
  show ?case
  proof (cases "state_at b n0 \<noteq> EMPTY \<and> state_at b n0 \<noteq> c \<and> \<not> fst (has_liberties b n0 [])")
    case False
    then have e: "?R = capture_loop c rest (b, k)" by (auto simp: Let_def)
    from False have ok: "state_at b n0 \<noteq> EMPTY \<and> state_at b n0 \<noteq> c \<longrightarrow> liberties b (group_of b n0) \<noteq> {}"
      using has_liberties_nil [of b n0] by auto
    note IH = Cons.IH [OF Cons.prems, of k "insert n0 S"]
    show ?thesis unfolding e using IH ok by auto
  next
    case True
    obtain b1 k1 where d: "destroy_group b n0 = (b1, k1)" by (cases "destroy_group b n0")
    let ?G = "set (group_at b n0)"
    from True have G: "?G = group_of b n0" by (simp add: set_group_at)
    have wf1: "wf_board b1" using wf_destroy_group [OF Cons.prems, of n0] d by simp
    have st1: "\<And>x. state_at b1 x = (if x \<in> ?G then EMPTY else state_at b x)"
      using state_at_destroy_group [OF Cons.prems, of n0] d by simp
    have k1: "k1 = card ?G" using snd_destroy_group [of b n0] d by simp
    from True d have e: "?R = capture_loop c rest (b1, k + k1)" by (simp add: Let_def)
    let ?b' = "fst (capture_loop c rest (b1, k + k1))"
    note IH = Cons.IH [OF wf1, of "k + k1" "insert n0 S"]
    from IH have wf': "wf_board ?b'" by blast
    from IH have ch: "\<And>q. state_at ?b' q = state_at b1 q \<or>
         (state_at b1 q \<noteq> EMPTY \<and> state_at b1 q \<noteq> c \<and> state_at ?b' q = EMPTY)" by blast
    from IH have cnt: "snd (capture_loop c rest (b1, k + k1)) = k + k1 + card (captured c b1 ?b')" by blast
    have Gcol: "\<And>q. q \<in> ?G \<Longrightarrow> state_at b q = state_at b n0" unfolding G by (rule group_of_colour)
    have ch': "\<And>q. state_at ?b' q = state_at b q \<or>
         (state_at b q \<noteq> EMPTY \<and> state_at b q \<noteq> c \<and> state_at ?b' q = EMPTY)"
    proof -
      fix q
      show "state_at ?b' q = state_at b q \<or>
         (state_at b q \<noteq> EMPTY \<and> state_at b q \<noteq> c \<and> state_at ?b' q = EMPTY)"
      proof (cases "q \<in> ?G")
        case True
        with st1 [of q] ch [of q] have "state_at ?b' q = EMPTY" by auto
        with Gcol [OF True] \<open>state_at b n0 \<noteq> EMPTY \<and> state_at b n0 \<noteq> c \<and> \<not> fst (has_liberties b n0 [])\<close>
        show ?thesis by simp
      next
        case False
        with st1 [of q] ch [of q] show ?thesis by auto
      qed
    qed
    have split: "captured c b ?b' = ?G \<union> captured c b1 ?b'" "?G \<inter> captured c b1 ?b' = {}"
    proof -
      show "captured c b ?b' = ?G \<union> captured c b1 ?b'"
      proof (intro set_eqI iffI)
        fix q assume "q \<in> captured c b ?b'"
        then show "q \<in> ?G \<union> captured c b1 ?b'" using st1 [of q] by (auto simp: captured_def)
      next
        fix q assume "q \<in> ?G \<union> captured c b1 ?b'"
        then show "q \<in> captured c b ?b'"
        proof
          assume q: "q \<in> ?G"
          with st1 [of q] ch [of q] have "state_at ?b' q = EMPTY" by auto
          with Gcol [OF q] True show ?thesis by (simp add: captured_def)
        next
          assume "q \<in> captured c b1 ?b'"
          then show ?thesis using st1 [of q] by (auto simp: captured_def split: if_splits)
        qed
      qed
      show "?G \<inter> captured c b1 ?b' = {}" using st1 by (auto simp: captured_def)
    qed
    have "card (captured c b ?b') = card ?G + card (captured c b1 ?b')"
      unfolding split(1) by (rule card_Un_disjoint) (simp_all add: finite_captured split(2))
    with cnt k1 have cnt': "snd (capture_loop c rest (b1, k + k1)) = k + card (captured c b ?b')"
      by simp
    have "n0 \<in> ?G" unfolding G by (rule group_of_self)
    with st1 [of n0] ch [of n0] have n0e: "state_at ?b' n0 = EMPTY" by auto
    have alive: "(\<forall>n \<in> S. state_at b n \<noteq> EMPTY \<and> state_at b n \<noteq> c \<longrightarrow> liberties b (group_of b n) \<noteq> {}) \<longrightarrow>
     (\<forall>n \<in> S \<union> set (n0 # rest). state_at ?b' n \<noteq> EMPTY \<and> state_at ?b' n \<noteq> c
          \<longrightarrow> liberties ?b' (group_of ?b' n) \<noteq> {})"
    proof
      assume A: "\<forall>n \<in> S. state_at b n \<noteq> EMPTY \<and> state_at b n \<noteq> c \<longrightarrow> liberties b (group_of b n) \<noteq> {}"
      have "\<forall>n \<in> insert n0 S. state_at b1 n \<noteq> EMPTY \<and> state_at b1 n \<noteq> c \<longrightarrow> liberties b1 (group_of b1 n) \<noteq> {}"
      proof (intro ballI impI)
        fix n assume n: "n \<in> insert n0 S" and s: "state_at b1 n \<noteq> EMPTY \<and> state_at b1 n \<noteq> c"
        from s st1 [of n] have ng: "n \<notin> ?G" and same: "state_at b1 n = state_at b n"
          by (auto split: if_splits)
        from ng \<open>n0 \<in> ?G\<close> n have "n \<in> S" by auto
        with A s same have "liberties b (group_of b n) \<noteq> {}" by simp
        moreover have "liberties b (group_of b n) \<subseteq> liberties b1 (group_of b1 n)"
          by (rule liberties_after_removal [where g = n0]) (use st1 s in auto)
        ultimately show "liberties b1 (group_of b1 n) \<noteq> {}" by auto
      qed
      with IH show "\<forall>n \<in> S \<union> set (n0 # rest). state_at ?b' n \<noteq> EMPTY \<and> state_at ?b' n \<noteq> c
          \<longrightarrow> liberties ?b' (group_of ?b' n) \<noteq> {}" by auto
    qed
    show ?thesis unfolding e using wf' ch' cnt' n0e alive by auto
  qed
qed

lemma play_in_bounds:
  assumes "in_bounds p"
    and "capture_loop (player st) (neighbours p) (set_cell (board st) p (player st), 0) = (b2, caps)"
    and "b3 = (if \<not> fst (has_liberties b2 p []) then fst (destroy_group b2 p) else b2)"
  shows "board (play p st) = b3"
    and "ko (play p st) = (if caps = 1 \<and> one_liberty_singleton b3 p then empty_neighbour b3 p else JNull)"
  using assms by (simp_all add: play_def Let_def)

lemma play_board_after:
  assumes wf: "wf_board (board st)" and ib: "in_bounds p"
    and cl: "capture_loop (player st) (neighbours p) (set_cell (board st) p (player st), 0) = (b2, caps)"
  shows "wf_board b2"
    and "\<forall>x. state_at (board (play p st)) x =
           (if \<not> fst (has_liberties b2 p []) \<and> x \<in> set (group_at b2 p) then EMPTY else state_at b2 x)"
proof -
  let ?b0 = "set_cell (board st) p (player st)"
  have wf0: "wf_board ?b0" using wf by (rule wf_set_cell)
  from capture_loop_props [OF wf0, of "player st" "neighbours p" 0 "{}"] cl
  show wf2: "wf_board b2" by simp
  have "board (play p st) = (if \<not> fst (has_liberties b2 p []) then fst (destroy_group b2 p) else b2)"
    using ib cl by (rule play_in_bounds) simp
  then show "\<forall>x. state_at (board (play p st)) x =
           (if \<not> fst (has_liberties b2 p []) \<and> x \<in> set (group_at b2 p) then EMPTY else state_at b2 x)"
    using state_at_destroy_group [OF wf2, of p] by simp
qed

text \<open>
  Claim C2. After \<open>play\<close> on a point \<open>p\<close> of the grid, every opponent stone next to \<open>p\<close>
  that is still on the board belongs to a group with at least one liberty: the groups
  next to \<open>p\<close> that had none were taken off. This holds for every point of the grid, in
  particular for every empty point that is legal for the player to move. On the boards of
  a game no group at all is left without a liberty (\<open>reachable_groups_alive\<close> below).
\<close>

theorem capture_correct:
  assumes wf: "wf_board (board st)" and ib: "in_bounds p"
    and n: "adjacent p n"
    and opp: "state_at (board (play p st)) n \<noteq> EMPTY" "state_at (board (play p st)) n \<noteq> player st"
  shows "liberties (board (play p st)) (group_of (board (play p st)) n) \<noteq> {}"
proof -
  let ?c = "player st" and ?b0 = "set_cell (board st) p (player st)" and ?b3 = "board (play p st)"
  obtain b2 caps where cl: "capture_loop ?c (neighbours p) (?b0, 0) = (b2, caps)"
    by (cases "capture_loop ?c (neighbours p) (?b0, 0)")
  have wf0: "wf_board ?b0" using wf by (rule wf_set_cell)
  note after = play_board_after [OF wf ib cl]
  from n have nn: "n \<in> set (neighbours p)" by (simp add: set_neighbours)
  from opp after(2) have same: "state_at b2 n = state_at ?b3 n"
    by (auto split: if_splits)
  from capture_loop_props [OF wf0, of ?c "neighbours p" 0 "{}"] cl nn
  have "state_at b2 n \<noteq> EMPTY \<and> state_at b2 n \<noteq> ?c \<longrightarrow> liberties b2 (group_of b2 n) \<noteq> {}"
    by simp
  with same opp have l2: "liberties b2 (group_of b2 n) \<noteq> {}" by simp
  show ?thesis
  proof (cases "fst (has_liberties b2 p [])")
    case True
    with after(2) have "\<forall>x. state_at ?b3 x = state_at b2 x" by simp
    then have "liberties b2 (group_of b2 n) \<subseteq> liberties ?b3 (group_of ?b3 n)"
      using group_of_subset [of b2 n ?b3] by (auto simp: liberties_def)
    with l2 show ?thesis by auto
  next
    case False
    with after(2) have "\<forall>x. state_at ?b3 x = (if x \<in> set (group_at b2 p) then EMPTY else state_at b2 x)"
      by simp
    then have "liberties b2 (group_of b2 n) \<subseteq> liberties ?b3 (group_of ?b3 n)"
      using opp(1) by (rule liberties_after_removal)
    with l2 show ?thesis by auto
  qed
qed

lemma one_liberty_singleton_loop_iff:
  "one_liberty_singleton_loop b col ns k \<longleftrightarrow>
     (\<forall>n \<in> set ns. state_at b n \<noteq> col) \<and> k + length (filter (\<lambda>n. state_at b n = EMPTY) ns) = 1"
  by (induction ns arbitrary: k) (auto simp: Let_def)

lemma empty_neighbours_card:
  "length (filter (\<lambda>n. state_at b n = EMPTY) (neighbours p)) = card {n. adjacent p n \<and> state_at b n = EMPTY}"
proof -
  have "distinct (filter (\<lambda>n. state_at b n = EMPTY) (neighbours p))"
    using distinct_neighbours by simp
  from distinct_card [OF this]
  have "length (filter (\<lambda>n. state_at b n = EMPTY) (neighbours p))
      = card (set (filter (\<lambda>n. state_at b n = EMPTY) (neighbours p)))" by simp
  also have "set (filter (\<lambda>n. state_at b n = EMPTY) (neighbours p)) = {n. adjacent p n \<and> state_at b n = EMPTY}"
    by (auto simp: set_neighbours)
  finally show ?thesis .
qed

lemma one_liberty_singleton_iff:
  "one_liberty_singleton b p \<longleftrightarrow>
     state_at b p \<noteq> EMPTY \<and> (\<forall>n. adjacent p n \<longrightarrow> state_at b n \<noteq> state_at b p) \<and>
     card {n. adjacent p n \<and> state_at b n = EMPTY} = 1"
  by (auto simp: one_liberty_singleton_def Let_def one_liberty_singleton_loop_iff
        empty_neighbours_card set_neighbours)

lemma empty_neighbour_loop_found:
  "\<exists>n \<in> set ns. state_at b n = EMPTY \<Longrightarrow>
     empty_neighbour_loop b ns \<in> set ns \<and> state_at b (empty_neighbour_loop b ns) = EMPTY"
  by (induction ns) auto

lemma empty_neighbour_found:
  assumes "adjacent p n" "state_at b n = EMPTY"
  shows "adjacent p (empty_neighbour b p) \<and> state_at b (empty_neighbour b p) = EMPTY
         \<and> empty_neighbour b p \<noteq> JNull"
proof -
  from assms have "\<exists>n \<in> set (neighbours p). state_at b n = EMPTY" by (auto simp: set_neighbours)
  from empty_neighbour_loop_found [OF this]
  have a: "adjacent p (empty_neighbour b p)" and e: "state_at b (empty_neighbour b p) = EMPTY"
    by (simp_all add: empty_neighbour_def set_neighbours)
  from a have "in_bounds (empty_neighbour b p)" using adjacent_in_bounds by blast
  then have "empty_neighbour b p \<noteq> JNull" by (auto simp: in_bounds_def)
  with a e show ?thesis by simp
qed

section \<open>Ko\<close>

text \<open>
  Claim C3. After \<open>play\<close> on a point \<open>p\<close> of the grid the ko point is set exactly when
  the move took exactly one opponent stone off the board and the stone just played has no
  neighbour of its own colour and exactly one empty neighbour; it is then that empty
  neighbour. In every other case the ko point is \<open>null\<close>. The stones captured are counted
  from the board with the new stone on it to the board the move leaves.
\<close>

theorem ko_detection:
  assumes wf: "wf_board (board st)" and pl: "player st = BLACK \<or> player st = WHITE"
    and ib: "in_bounds p"
  shows "(ko (play p st) \<noteq> JNull \<longleftrightarrow>
            card (captured (player st) (set_cell (board st) p (player st)) (board (play p st))) = 1
          \<and> (\<forall>n. adjacent p n \<longrightarrow> state_at (board (play p st)) n \<noteq> player st)
          \<and> card {n. adjacent p n \<and> state_at (board (play p st)) n = EMPTY} = 1)
       \<and> (ko (play p st) \<noteq> JNull \<longrightarrow>
            {n. adjacent p n \<and> state_at (board (play p st)) n = EMPTY} = {ko (play p st)})"
proof -
  let ?c = "player st" and ?b0 = "set_cell (board st) p (player st)" and ?b3 = "board (play p st)"
  from pl have cne: "?c \<noteq> EMPTY" by auto
  obtain b2 caps where cl: "capture_loop ?c (neighbours p) (?b0, 0) = (b2, caps)"
    by (cases "capture_loop ?c (neighbours p) (?b0, 0)")
  have wf0: "wf_board ?b0" using wf by (rule wf_set_cell)
  have b0p: "state_at ?b0 p = ?c" using wf ib by (simp add: state_at_set_cell)
  note after = play_board_after [OF wf ib cl]
  note props = capture_loop_props [OF wf0, of ?c "neighbours p" 0 "{}", unfolded cl fst_conv snd_conv]
  from props have ch: "\<And>q. state_at b2 q = state_at ?b0 q \<or>
       (state_at ?b0 q \<noteq> EMPTY \<and> state_at ?b0 q \<noteq> ?c \<and> state_at b2 q = EMPTY)" by blast
  from props have cnt: "caps = card (captured ?c ?b0 b2)" by simp
  from props have some: "caps \<noteq> 0 \<Longrightarrow> \<exists>n \<in> set (neighbours p). state_at b2 n = EMPTY" by simp
  from ch [of p] b0p have b2p: "state_at b2 p = ?c" by auto
  have own: "\<And>x. x \<in> set (group_at b2 p) \<Longrightarrow> state_at ?b0 x = ?c"
  proof -
    fix x assume "x \<in> set (group_at b2 p)"
    then have "x \<in> group_of b2 p" by (auto simp: set_group_at split: if_splits)
    then have "state_at b2 x = ?c" using b2p by (simp add: group_of_colour)
    with ch [of x] cne show "state_at ?b0 x = ?c" by auto
  qed
  have cap3: "captured ?c ?b0 ?b3 = captured ?c ?b0 b2"
    using after(2) own by (auto simp: captured_def split: if_splits)
  with cnt have caps: "caps = card (captured ?c ?b0 ?b3)" by simp
  have alive: "state_at ?b3 p = ?c" if "caps \<noteq> 0"
  proof -
    from some [OF that] obtain n where n: "adjacent p n" "state_at b2 n = EMPTY"
      by (auto simp: set_neighbours)
    then have "n \<in> liberties b2 (group_of b2 p)" by (auto simp: liberties_def group_of_self)
    then have "fst (has_liberties b2 p [])" using has_liberties_nil [of b2 p] b2p cne by auto
    with after(2) b2p show ?thesis by simp
  qed
  have kodef: "ko (play p st) = (if caps = 1 \<and> one_liberty_singleton ?b3 p then empty_neighbour ?b3 p else JNull)"
    using ib cl by (rule play_in_bounds(2)) (simp add: play_in_bounds(1) [OF ib cl refl])
  let ?E = "{n. adjacent p n \<and> state_at ?b3 n = EMPTY}"
  have single: "one_liberty_singleton ?b3 p \<longleftrightarrow>
      (\<forall>n. adjacent p n \<longrightarrow> state_at ?b3 n \<noteq> ?c) \<and> card ?E = 1" if "caps = 1"
    using alive that cne by (simp add: one_liberty_singleton_iff)
  have found: "empty_neighbour ?b3 p \<noteq> JNull \<and> ?E = {empty_neighbour ?b3 p}" if "card ?E = 1"
  proof -
    from that obtain n where E: "?E = {n}" by (auto simp: card_1_singleton_iff)
    then have "adjacent p n" "state_at ?b3 n = EMPTY" by auto
    from empty_neighbour_found [OF this] E show ?thesis by auto
  qed
  show ?thesis
  proof (cases "caps = 1 \<and> one_liberty_singleton ?b3 p")
    case True
    with single have s: "(\<forall>n. adjacent p n \<longrightarrow> state_at ?b3 n \<noteq> ?c) \<and> card ?E = 1" by simp
    with found have "empty_neighbour ?b3 p \<noteq> JNull \<and> ?E = {empty_neighbour ?b3 p}" by simp
    with True s caps kodef show ?thesis by simp
  next
    case False
    with kodef have k: "ko (play p st) = JNull" by auto
    from False single caps
    have "\<not> (card (captured ?c ?b0 ?b3) = 1 \<and> (\<forall>n. adjacent p n \<longrightarrow> state_at ?b3 n \<noteq> ?c) \<and> card ?E = 1)"
      by auto
    with k show ?thesis by simp
  qed
qed

section \<open>Every group on a reachable board has a liberty\<close>

lemma group_kept_after_removal:
  assumes rem: "\<forall>x. state_at b' x = (if x \<in> set (group_at b g) then EMPTY else state_at b x)"
    and n: "state_at b' n \<noteq> EMPTY"
  shows "group_of b n \<subseteq> group_of b' n"
proof -
  have "q \<notin> set (group_at b g)" if "q \<in> group_of b n" for q
  proof
    assume "q \<in> set (group_at b g)"
    then have "state_at b g \<noteq> EMPTY" and qg: "q \<in> group_of b g"
      by (auto simp: set_group_at split: if_splits)
    from that have "group_of b q = group_of b n" by (rule group_of_eq)
    moreover from qg have "group_of b q = group_of b g" by (rule group_of_eq)
    ultimately have "n \<in> group_of b g" using group_of_self [of n b] by simp
    with \<open>state_at b g \<noteq> EMPTY\<close> have "n \<in> set (group_at b g)" by (simp add: set_group_at)
    with rem n show False by simp
  qed
  with rem have "\<forall>q \<in> group_of b n. state_at b' q = state_at b q" by simp
  then show ?thesis by (rule group_of_subset)
qed

lemma capture_loop_keeps:
  assumes "wf_board b" and "state_at (fst (capture_loop c ns (b, k))) q \<noteq> EMPTY"
  shows "group_of b q \<subseteq> group_of (fst (capture_loop c ns (b, k))) q \<and>
         liberties b (group_of b q) \<subseteq>
           liberties (fst (capture_loop c ns (b, k))) (group_of (fst (capture_loop c ns (b, k))) q)"
  using assms
proof (induction ns arbitrary: b k)
  case Nil
  then show ?case by simp
next
  case (Cons n0 rest)
  show ?case
  proof (cases "state_at b n0 \<noteq> EMPTY \<and> state_at b n0 \<noteq> c \<and> \<not> fst (has_liberties b n0 [])")
    case False
    then have e: "capture_loop c (n0 # rest) (b, k) = capture_loop c rest (b, k)"
      by (auto simp: Let_def)
    from Cons.IH [OF Cons.prems(1), of k] Cons.prems(2) [unfolded e] show ?thesis unfolding e by simp
  next
    case True
    obtain b1 k1 where d: "destroy_group b n0 = (b1, k1)" by (cases "destroy_group b n0")
    have wf1: "wf_board b1" using wf_destroy_group [OF Cons.prems(1), of n0] d by simp
    have st1: "\<forall>x. state_at b1 x = (if x \<in> set (group_at b n0) then EMPTY else state_at b x)"
      using state_at_destroy_group [OF Cons.prems(1), of n0] d by simp
    from True d have e: "capture_loop c (n0 # rest) (b, k) = capture_loop c rest (b1, k + k1)"
      by (simp add: Let_def)
    let ?b' = "fst (capture_loop c rest (b1, k + k1))"
    from Cons.prems(2) [unfolded e] have q': "state_at ?b' q \<noteq> EMPTY" .
    from capture_loop_props [OF wf1, of c rest "k + k1" "{}"]
    have "state_at ?b' q = state_at b1 q \<or>
         (state_at b1 q \<noteq> EMPTY \<and> state_at b1 q \<noteq> c \<and> state_at ?b' q = EMPTY)" by blast
    with q' have q1: "state_at b1 q \<noteq> EMPTY" by auto
    note IH = Cons.IH [OF wf1 q']
    from st1 q1 have "group_of b q \<subseteq> group_of b1 q" by (rule group_kept_after_removal)
    moreover from st1 q1 have "liberties b (group_of b q) \<subseteq> liberties b1 (group_of b1 q)"
      by (rule liberties_after_removal)
    ultimately show ?thesis unfolding e using IH by blast
  qed
qed

lemma wf_play: "wf_board (board st) \<Longrightarrow> wf_board (board (play p st))"
proof (cases "in_bounds p")
  case False
  assume "wf_board (board st)"
  with False show ?thesis by (simp add: play_def Let_def)
next
  case True
  assume wf: "wf_board (board st)"
  obtain b2 caps where cl: "capture_loop (player st) (neighbours p) (set_cell (board st) p (player st), 0) = (b2, caps)"
    by (cases "capture_loop (player st) (neighbours p) (set_cell (board st) p (player st), 0)")
  from play_board_after(1) [OF wf True cl] have wf2: "wf_board b2" .
  have "board (play p st) = (if \<not> fst (has_liberties b2 p []) then fst (destroy_group b2 p) else b2)"
    using True cl by (rule play_in_bounds) simp
  with wf2 show ?thesis by (simp add: wf_destroy_group)
qed

text \<open>
  A move on an empty point of a board on which every group has a liberty leaves a board
  on which every group, of either colour, has a liberty.
\<close>

lemma play_groups_alive:
  assumes wf: "wf_board (board st)" and pl: "player st = BLACK \<or> player st = WHITE"
    and ib: "in_bounds p" and pe: "state_at (board st) p = EMPTY"
    and J: "\<forall>q. state_at (board st) q \<noteq> EMPTY \<longrightarrow> liberties (board st) (group_of (board st) q) \<noteq> {}"
    and q: "state_at (board (play p st)) q \<noteq> EMPTY"
  shows "liberties (board (play p st)) (group_of (board (play p st)) q) \<noteq> {}"
proof -
  let ?bd = "board st" and ?c = "player st"
  let ?bp = "set_cell ?bd p ?c" and ?bf = "board (play p st)"
  from pl have cne: "?c \<noteq> EMPTY" by auto
  obtain b2 caps where cl: "capture_loop ?c (neighbours p) (?bp, 0) = (b2, caps)"
    by (cases "capture_loop ?c (neighbours p) (?bp, 0)")
  have wf0: "wf_board ?bp" using wf by (rule wf_set_cell)
  have upd: "\<And>x. state_at ?bp x = (if x = p then ?c else state_at ?bd x)"
    using wf ib by (rule state_at_set_cell)
  note after = play_board_after [OF wf ib cl]
  note props = capture_loop_props [OF wf0, of ?c "neighbours p" 0 "{}", unfolded cl fst_conv snd_conv]
  from props have ch: "\<And>x. state_at b2 x = state_at ?bp x \<or>
       (state_at ?bp x \<noteq> EMPTY \<and> state_at ?bp x \<noteq> ?c \<and> state_at b2 x = EMPTY)" by blast
  from props have nb: "\<And>n. adjacent p n \<Longrightarrow> state_at b2 n \<noteq> EMPTY \<Longrightarrow> state_at b2 n \<noteq> ?c
      \<Longrightarrow> liberties b2 (group_of b2 n) \<noteq> {}" by (simp add: set_neighbours)
  from ch [of p] upd [of p] have b2p: "state_at b2 p = ?c" by auto
  from q after(2) have q2: "state_at b2 q \<noteq> EMPTY" and e23: "state_at ?bf q = state_at b2 q"
    by (auto split: if_splits)
  from ch [of q] q2 have e02: "state_at b2 q = state_at ?bp q" by auto
  have keep2: "group_of ?bp q \<subseteq> group_of b2 q" "liberties ?bp (group_of ?bp q) \<subseteq> liberties b2 (group_of b2 q)"
    using capture_loop_keeps [OF wf0, of ?c "neighbours p" 0 q] cl q2 by simp_all
  have keep3: "liberties b2 (group_of b2 q) \<subseteq> liberties ?bf (group_of ?bf q)"
  proof (cases "fst (has_liberties b2 p [])")
    case True
    with after(2) have "\<forall>x. state_at ?bf x = state_at b2 x" by simp
    then show ?thesis using group_of_subset [of b2 q ?bf] by (auto simp: liberties_def)
  next
    case False
    with after(2) have "\<forall>x. state_at ?bf x = (if x \<in> set (group_at b2 p) then EMPTY else state_at b2 x)"
      by simp
    then show ?thesis using q by (rule liberties_after_removal)
  qed
  have qp: "q \<noteq> p" if "q \<notin> group_of b2 p" using that group_of_self [of p b2] by auto
  show ?thesis
  proof (cases "q \<in> group_of b2 p")
    case True
    then have g: "group_of b2 q = group_of b2 p" by (rule group_of_eq)
    have "fst (has_liberties b2 p [])"
    proof (rule ccontr)
      assume "\<not> fst (has_liberties b2 p [])"
      with after(2) True b2p cne have "state_at ?bf q = EMPTY" by (simp add: set_group_at)
      with q show False by simp
    qed
    then have "liberties b2 (group_of b2 p) \<noteq> {}" using has_liberties_nil [of b2 p] b2p cne by simp
    with g keep3 show ?thesis by auto
  next
    case False
    from qp [OF False] have qb: "state_at ?bp q = state_at ?bd q" by (simp add: upd)
    with e02 q2 have "state_at ?bd q \<noteq> EMPTY" by simp
    with J obtain x m where x: "x \<in> group_of ?bd q" and m: "adjacent x m" "state_at ?bd m = EMPTY"
      by (auto simp: liberties_def)
    have "\<forall>y \<in> group_of ?bd q. state_at ?bp y = state_at ?bd y"
    proof
      fix y assume "y \<in> group_of ?bd q"
      then have "state_at ?bd y = state_at ?bd q" by (rule group_of_colour)
      with \<open>state_at ?bd q \<noteq> EMPTY\<close> pe have "y \<noteq> p" by auto
      then show "state_at ?bp y = state_at ?bd y" by (simp add: upd)
    qed
    then have "group_of ?bd q \<subseteq> group_of ?bp q" by (rule group_of_subset)
    with x keep2(1) have x0: "x \<in> group_of ?bp q" and x2: "x \<in> group_of b2 q" by auto
    show ?thesis
    proof (cases "m = p")
      case mp: False
      with m(2) have "state_at ?bp m = EMPTY" by (simp add: upd)
      with x0 m(1) have "m \<in> liberties ?bp (group_of ?bp q)" by (auto simp: liberties_def)
      with keep2(2) keep3 show ?thesis by auto
    next
      case True
      with m(1) have ax: "adjacent p x" by (simp add: adjacent_sym)
      from x2 have cx: "state_at b2 x = state_at b2 q" by (rule group_of_colour)
      from x2 have gx: "group_of b2 x = group_of b2 q" by (rule group_of_eq)
      show ?thesis
      proof (cases "state_at b2 q = ?c")
        case True
        with cx b2p ax have "(x, p) \<in> group_step b2" by (simp add: group_step_def adjacent_sym)
        with x2 have "p \<in> group_of b2 q" by (auto simp: group_of_def intro: rtrancl_into_rtrancl)
        then have "group_of b2 p = group_of b2 q" by (rule group_of_eq)
        with False group_of_self [of q b2] show ?thesis by simp
      next
        case False
        with cx q2 nb [OF ax] have "liberties b2 (group_of b2 x) \<noteq> {}" by simp
        with gx keep3 show ?thesis by auto
      qed
    qed
  qed
qed

lemma legal_move_empty_in_bounds:
  "fst (legal_move p st) \<Longrightarrow> in_bounds p \<and> state_at (board st) p = EMPTY"
  by (auto simp: legal_move_def split: if_splits)

lemma player_play: "player (play p st) = BLACK \<or> player (play p st) = WHITE"
  by (auto simp: play_def Let_def split: prod.splits)

lemma reachable_groups_alive:
  "reachable st \<Longrightarrow>
     wf_board (board st) \<and> (player st = BLACK \<or> player st = WHITE) \<and>
     (\<forall>q. state_at (board st) q \<noteq> EMPTY \<longrightarrow> liberties (board st) (group_of (board st) q) \<noteq> {})"
proof (induction rule: reachable.induct)
  case start
  have "state_at initial_board q = EMPTY" for q
  proof (cases "in_bounds q")
    case True
    then obtain x y where "0 \<le> x" "x < 19" "0 \<le> y" "y < 19" "q = xy_to_s x y"
      by (rule in_bounds_coords)
    then show ?thesis by (simp add: state_at_xy_to_s initial_board_def)
  next
    case False
    then show ?thesis by (rule state_at_out)
  qed
  then show ?case
    by (simp add: initial_game_def wf_board_def initial_board_def list_all_iff)
next
  case (move st s)
  from move.hyps(2) have "in_bounds s" "state_at (board st) s = EMPTY"
    using legal_move_empty_in_bounds by blast+
  with move.IH show ?case using play_groups_alive [of st s] wf_play [of st s] player_play [of s st]
    by blast
next
  case (pass st s)
  then show ?case using player_play [of s st] by (auto simp: play_def Let_def)
qed

section \<open>The theorems on concrete positions\<close>

lemma reachable_fold_play:
  "reachable st \<Longrightarrow> all_legal ms st \<Longrightarrow> reachable (fold play ms st)"
proof (induction ms arbitrary: st)
  case Nil
  then show ?case by simp
next
  case (Cons m ms)
  from Cons.prems have "reachable (play m st)"
    by (cases "in_bounds m") (auto intro: reachable.move reachable.pass)
  with Cons show ?case by simp
qed

lemma adjacent_iff_neighbours: "adjacent p n \<longleftrightarrow> n \<in> set (neighbours p)"
  by (simp add: set_neighbours)

theorem ko_invariant_witness:
  "reachable (play (JStr ''aa'') ko_position) \<and>
   ko (play (JStr ''aa'') ko_position) = JStr ''ba'' \<and>
   in_bounds (ko (play (JStr ''aa'') ko_position)) \<and>
   state_at (board (play (JStr ''aa'') ko_position)) (ko (play (JStr ''aa'') ko_position)) = EMPTY"
proof -
  have "all_legal (ko_moves @ [JStr ''aa'']) initial_game" by code_simp
  with reachable.start have "reachable (fold play (ko_moves @ [JStr ''aa'']) initial_game)"
    by (rule reachable_fold_play)
  then have r: "reachable (play (JStr ''aa'') ko_position)" by (simp add: ko_position_def)
  have k: "ko (play (JStr ''aa'') ko_position) = JStr ''ba''" by code_simp
  from ko_invariant [OF r] k r show ?thesis by simp
qed

theorem ko_detection_witness:
  "wf_board (board ko_position) \<and> player ko_position = WHITE \<and> in_bounds (JStr ''aa'') \<and>
   ko (play (JStr ''aa'') ko_position) = JStr ''ba'' \<and>
   card (captured WHITE (set_cell (board ko_position) (JStr ''aa'') WHITE)
           (board (play (JStr ''aa'') ko_position))) = 1 \<and>
   {n. adjacent (JStr ''aa'') n \<and> state_at (board (play (JStr ''aa'') ko_position)) n = EMPTY}
     = {JStr ''ba''}"
proof -
  have wf: "wf_board (board ko_position)" by code_simp
  have pl: "player ko_position = WHITE" by code_simp
  then have pl': "player ko_position = BLACK \<or> player ko_position = WHITE" by simp
  have ib: "in_bounds (JStr ''aa'')" by code_simp
  have k: "ko (play (JStr ''aa'') ko_position) = JStr ''ba''" by code_simp
  from ko_detection [OF wf pl' ib] k wf pl ib show ?thesis by simp
qed

theorem capture_correct_witness:
  "wf_board (board ko_position) \<and> in_bounds (JStr ''aa'') \<and> adjacent (JStr ''aa'') (JStr ''ab'') \<and>
   state_at (board (play (JStr ''aa'') ko_position)) (JStr ''ab'') = BLACK \<and>
   player ko_position = WHITE \<and>
   liberties (board (play (JStr ''aa'') ko_position))
     (group_of (board (play (JStr ''aa'') ko_position)) (JStr ''ab'')) \<noteq> {}"
proof -
  have wf: "wf_board (board ko_position)" by code_simp
  have pl: "player ko_position = WHITE" by code_simp
  have ib: "in_bounds (JStr ''aa'')" by code_simp
  have "JStr ''ab'' \<in> set (neighbours (JStr ''aa''))" by code_simp
  then have ad: "adjacent (JStr ''aa'') (JStr ''ab'')" by (simp add: adjacent_iff_neighbours)
  have s: "state_at (board (play (JStr ''aa'') ko_position)) (JStr ''ab'') = BLACK" by code_simp
  from s have o1: "state_at (board (play (JStr ''aa'') ko_position)) (JStr ''ab'') \<noteq> EMPTY" by simp
  from s pl have o2: "state_at (board (play (JStr ''aa'') ko_position)) (JStr ''ab'') \<noteq> player ko_position"
    by simp
  from capture_correct [OF wf ib ad o1 o2] wf pl ib ad s show ?thesis by simp
qed

theorem group_at_component_witness:
  "state_at (board (play (JStr ''ee'') corner_position)) (JStr ''dd'') = BLACK \<and>
   group_at (board (play (JStr ''ee'') corner_position)) (JStr ''dd'') = [JStr ''dd'', JStr ''de'', JStr ''ee''] \<and>
   group_of (board (play (JStr ''ee'') corner_position)) (JStr ''dd'') = {JStr ''dd'', JStr ''de'', JStr ''ee''} \<and>
   set (group_at (board (play (JStr ''ee'') corner_position)) (JStr ''ee''))
     = set (group_at (board (play (JStr ''ee'') corner_position)) (JStr ''dd'')) \<and>
   state_at (board (play (JStr ''ee'') corner_position)) (JStr ''cc'') = EMPTY \<and>
   group_at (board (play (JStr ''ee'') corner_position)) (JStr ''cc'') = []"
proof -
  let ?b = "board (play (JStr ''ee'') corner_position)"
  have s: "state_at ?b (JStr ''dd'') = BLACK" by code_simp
  have g: "group_at ?b (JStr ''dd'') = [JStr ''dd'', JStr ''de'', JStr ''ee'']" by code_simp
  have e: "state_at ?b (JStr ''cc'') = EMPTY" by code_simp
  from g have m: "JStr ''ee'' \<in> set (group_at ?b (JStr ''dd''))" by simp
  from group_at_component [of ?b "JStr ''dd''"] s g m group_at_component [of ?b "JStr ''cc''"] e
  show ?thesis by auto
qed

theorem legal_move_no_suicide_witness:
  "wf_board (board corner_position) \<and> player corner_position = BLACK \<and>
   liberties (set_cell (board corner_position) (JStr ''aa'') BLACK)
     (group_of (set_cell (board corner_position) (JStr ''aa'') BLACK) (JStr ''aa'')) = {} \<and>
   liberties (set_cell (board corner_position) (JStr ''aa'') BLACK)
     (group_of (set_cell (board corner_position) (JStr ''aa'') BLACK) (JStr ''ba'')) \<noteq> {} \<and>
   liberties (set_cell (board corner_position) (JStr ''aa'') BLACK)
     (group_of (set_cell (board corner_position) (JStr ''aa'') BLACK) (JStr ''ab'')) \<noteq> {} \<and>
   fst (legal_move (JStr ''aa'') corner_position) = False"
proof -
  let ?b' = "set_cell (board corner_position) (JStr ''aa'') BLACK"
  have wf: "wf_board (board corner_position)" by code_simp
  have pl: "player corner_position = BLACK" by code_simp
  have s0: "state_at ?b' (JStr ''aa'') \<noteq> EMPTY" by code_simp
  have s1: "state_at ?b' (JStr ''ba'') \<noteq> EMPTY" by code_simp
  have s2: "state_at ?b' (JStr ''ab'') \<noteq> EMPTY" by code_simp
  have h0: "\<not> fst (has_liberties ?b' (JStr ''aa'') [])" by code_simp
  have h1: "fst (has_liberties ?b' (JStr ''ba'') [])" by code_simp
  have h2: "fst (has_liberties ?b' (JStr ''ab'') [])" by code_simp
  have nb: "neighbours (JStr ''aa'') = [JStr ''ba'', JStr ''ab'']" by code_simp
  from h0 has_liberties_nil [OF s0] have dead: "liberties ?b' (group_of ?b' (JStr ''aa'')) = {}" by simp
  from h1 has_liberties_nil [OF s1] have l1: "liberties ?b' (group_of ?b' (JStr ''ba'')) \<noteq> {}" by simp
  from h2 has_liberties_nil [OF s2] have l2: "liberties ?b' (group_of ?b' (JStr ''ab'')) \<noteq> {}" by simp
  have nocap: "\<forall>n. adjacent (JStr ''aa'') n \<and> state_at ?b' n \<noteq> EMPTY \<and> state_at ?b' n \<noteq> BLACK
      \<longrightarrow> liberties ?b' (group_of ?b' n) \<noteq> {}"
    using l1 l2 by (auto simp: adjacent_iff_neighbours nb)
  have "fst (legal_move (JStr ''aa'') corner_position) = False"
    by (rule legal_move_no_suicide) (use wf pl dead nocap in simp_all)
  with wf pl dead l1 l2 show ?thesis by simp
qed

end
